theory Spec2Isabelle
  imports Main "HOL-Library.Sublist" "HOL-Library.Word"
begin

unbundle bit_operations_syntax

section \<open>Python strings\<close>

text \<open>
  A Python \<open>str\<close> is a sequence of Unicode code points; it is modelled as a list of
  natural numbers. The section titles of the program contain emoji, and
  \<open>str.strip\<close>, \<open>str.splitlines\<close> and the regular-expression class \<open>\s\<close> all act on
  code points beyond ASCII, so the tables below list them in full (CPython 3.11).
\<close>

type_synonym ustr = "nat list"

definition asc :: "string \<Rightarrow> ustr" where
  "asc s = map of_char s"

definition NL :: nat where
  "NL = 10"

definition is_space :: "nat \<Rightarrow> bool" where
  "is_space c \<longleftrightarrow>
     (9 \<le> c \<and> c \<le> 13) \<or> (28 \<le> c \<and> c \<le> 32) \<or> c = 133 \<or> c = 160 \<or> c = 5760
     \<or> (8192 \<le> c \<and> c \<le> 8202) \<or> c = 8232 \<or> c = 8233 \<or> c = 8239 \<or> c = 8287
     \<or> c = 12288"

definition is_linebreak :: "nat \<Rightarrow> bool" where
  "is_linebreak c \<longleftrightarrow>
     (10 \<le> c \<and> c \<le> 13) \<or> (28 \<le> c \<and> c \<le> 30) \<or> c = 133 \<or> c = 8232 \<or> c = 8233"

definition strip :: "ustr \<Rightarrow> ustr" where
  "strip s = rev (dropWhile is_space (rev (dropWhile is_space s)))"

text \<open>\<open>"\n".join(lines)\<close>\<close>

fun join_nl :: "ustr list \<Rightarrow> ustr" where
  "join_nl [] = []"
| "join_nl [l] = l"
| "join_nl (l # m # ls) = l @ NL # join_nl (m # ls)"

definition endswith_nl :: "ustr \<Rightarrow> bool" where
  "endswith_nl s \<longleftrightarrow> s \<noteq> [] \<and> last s = NL"

text \<open>\<open>if not out.endswith("\n"): out += "\n"\<close>\<close>

definition ensure_nl :: "ustr \<Rightarrow> ustr" where
  "ensure_nl out = (if endswith_nl out then out else out @ [NL])"

text \<open>
  \<open>str.splitlines()\<close>: a line ends at a line-break character, \<open>"\r\n"\<close> counts as one
  break, and no empty line is reported after the last break. The first argument
  holds the characters of the line being read.
\<close>

fun splitlines_from :: "ustr \<Rightarrow> ustr \<Rightarrow> ustr list" where
  "splitlines_from cur [] = (if cur = [] then [] else [cur])"
| "splitlines_from cur (c # cs) =
     (if c = 13 \<and> cs \<noteq> [] \<and> hd cs = 10 then cur # splitlines_from [] (tl cs)
      else if is_linebreak c then cur # splitlines_from [] cs
      else splitlines_from (cur @ [c]) cs)"

definition splitlines :: "ustr \<Rightarrow> ustr list" where
  "splitlines s = splitlines_from [] s"

text \<open>
  \<open>str.lower()\<close> as \<open>classify_platform\<close> uses it: the result is only compared with the
  ASCII platform names, and \<open>lower\<close> is exact on ASCII and on the Kelvin sign, the
  only other code point whose lower case is ASCII, so the comparison comes out as
  in Python for every string. Where the lowered text itself is written to the
  document (\<open>add_issue_line\<close>), \<open>str.lower\<close> is a parameter instead.
\<close>

definition lower_char :: "nat \<Rightarrow> nat" where
  "lower_char c = (if 65 \<le> c \<and> c \<le> 90 then c + 32 else if c = 8490 then 107 else c)"

definition lower :: "ustr \<Rightarrow> ustr" where
  "lower s = map lower_char s"

text \<open>\<open>str(n)\<close> for a non-negative integer.\<close>

function str_nat :: "nat \<Rightarrow> ustr" where
  "str_nat n = (if n < 10 then [48 + n] else str_nat (n div 10) @ [48 + n mod 10])"
  by pat_completeness auto
termination
  by (relation "measure id") auto

declare str_nat.simps [simp del]

section \<open>Platforms\<close>

definition GEN4_PLATFORMS :: "ustr list" where
  "GEN4_PLATFORMS = [asc ''nx1'', asc ''ps4'', asc ''xb1'']"

text \<open>\<open>testv021.py\<close> adds \<open>steamdeck\<close> and \<open>laptop\<close> to the set of \<open>test.py\<close>.\<close>

definition GEN5_PLATFORMS :: "ustr list" where
  "GEN5_PLATFORMS = [asc ''nx2'', asc ''pc'', asc ''xbx'', asc ''ps5'', asc ''steamdeck'', asc ''laptop'']"

definition classify_platform :: "ustr \<Rightarrow> ustr option" where
  "classify_platform p =
     (let q = lower p in
      if q \<in> set GEN4_PLATFORMS then Some (asc ''gen4'')
      else if q \<in> set GEN5_PLATFORMS then Some (asc ''gen5'')
      else None)"

section \<open>Regular expressions\<close>

text \<open>
  The patterns that locate sections are sequences of literals, \<open>\s*\<close>, \<open>\s+\<close> and a
  final \<open>$\<close>. In each of them a whitespace run is followed by a literal that starts
  with a non-space character, by \<open>$\<close>, or by nothing, so the greedy match that
  \<open>re_match\<close> computes is the only one \<open>re.match\<close> can find. With \<open>re.IGNORECASE\<close> a
  literal character matches the code points with the same \<open>fold_case\<close>: for the ASCII
  letters these are the two cases, and in addition U+0130 and U+0131 for \<open>i\<close>, U+017F for
  \<open>s\<close> and U+212A for \<open>k\<close>.
\<close>

datatype tok = Lit ustr | Ws0 | Ws1 | Dollar

definition fold_case :: "nat \<Rightarrow> nat" where
  "fold_case c =
     (if 65 \<le> c \<and> c \<le> 90 then c + 32
      else if c = 304 \<or> c = 305 then 105
      else if c = 383 then 115
      else if c = 8490 then 107
      else c)"

definition lit_match :: "bool \<Rightarrow> ustr \<Rightarrow> ustr \<Rightarrow> bool" where
  "lit_match ignorecase p s =
     (if ignorecase then map fold_case (take (length p) s) = map fold_case p
      else take (length p) s = p)"

fun re_match :: "bool \<Rightarrow> tok list \<Rightarrow> ustr \<Rightarrow> bool" where
  "re_match ic [] s = True"
| "re_match ic (Lit p # ts) s = (lit_match ic p s \<and> re_match ic ts (drop (length p) s))"
| "re_match ic (Ws0 # ts) s = re_match ic ts (dropWhile is_space s)"
| "re_match ic (Ws1 # ts) s = (s \<noteq> [] \<and> is_space (hd s) \<and> re_match ic ts (dropWhile is_space s))"
| "re_match ic (Dollar # ts) s = ((s = [] \<or> s = [NL]) \<and> re_match ic ts s)"

section \<open>Section index\<close>

definition BUG_GLYPH :: ustr where
  "BUG_GLYPH = [128027]"

definition MEMO_GLYPH :: ustr where
  "MEMO_GLYPH = [128221]"

definition DETECTIVE_GLYPH :: ustr where
  "DETECTIVE_GLYPH = [128373, 65039, 8205, 9794, 65039]"

definition DIVIDERS_GLYPH :: ustr where
  "DIVIDERS_GLYPH = [128450, 65039]"

definition BUGS_HEADERS :: "tok list list" where
  "BUGS_HEADERS =
     [[Lit (asc ''#''), Ws0, Lit (asc ''bugs''), Ws0, Dollar],
      [Lit (asc ''#''), Ws0, Lit (asc ''bugs''), Ws0, Lit BUG_GLYPH, Ws0, Dollar]]"

definition REPORTS_HEADERS :: "tok list list" where
  "REPORTS_HEADERS =
     [[Lit (asc ''#''), Ws0, Lit (asc ''reports''), Ws1, Lit (asc ''written''), Ws0, Lit MEMO_GLYPH, Ws0, Dollar],
      [Lit (asc ''#''), Ws0, Lit (asc ''reports''), Ws1, Lit (asc ''written''), Ws0, Dollar]]"

definition ISSUES_HEADERS :: "tok list list" where
  "ISSUES_HEADERS =
     [[Lit (asc ''#''), Ws0, Lit (asc ''issues''), Ws1, Lit (asc ''found''), Ws0, Lit DETECTIVE_GLYPH, Ws0, Dollar],
      [Lit (asc ''#''), Ws0, Lit (asc ''issues''), Ws1, Lit (asc ''found''), Ws0, Dollar]]"

definition FOUND_HEADERS :: "tok list list" where
  "FOUND_HEADERS =
     [[Lit (asc ''#''), Ws0, Lit (asc ''found''), Ws0, Lit (asc ''/''), Ws0, Lit (asc ''invalid''), Ws0,
       Lit DIVIDERS_GLYPH, Ws0, Dollar],
      [Lit (asc ''#''), Ws0, Lit (asc ''found''), Ws0, Lit (asc ''/''), Ws0, Lit (asc ''invalid''), Ws0, Dollar],
      [Lit (asc ''#''), Ws0, Lit (asc ''found''), Ws0, Lit DIVIDERS_GLYPH, Ws0, Dollar],
      [Lit (asc ''#''), Ws0, Lit (asc ''found''), Ws0, Dollar]]"

text \<open>The pattern \<open>^#\s+\<close> that ends a section.\<close>

definition ANY_HEADER :: "tok list" where
  "ANY_HEADER = [Lit (asc ''#''), Ws1]"

text \<open>\<open>any(re.match(pat, line.strip(), re.IGNORECASE) for pat in header_patterns)\<close>\<close>

definition is_header :: "tok list list \<Rightarrow> ustr \<Rightarrow> bool" where
  "is_header header_patterns line = list_ex (\<lambda>pat. re_match True pat (strip line)) header_patterns"

fun find_section_start :: "ustr list \<Rightarrow> tok list list \<Rightarrow> nat option" where
  "find_section_start [] header_patterns = None"
| "find_section_start (line # lines) header_patterns =
     (if is_header header_patterns line then Some 0
      else map_option Suc (find_section_start lines header_patterns))"

text \<open>
  The loop \<open>for j in range(start, len(lines))\<close> of \<open>_section_bounds\<close>, run on the lines
  from \<open>start\<close> on: the index of the first line that matches \<open>^#\s+\<close>, else the length.
\<close>

fun next_header :: "ustr list \<Rightarrow> nat \<Rightarrow> nat" where
  "next_header [] j = j"
| "next_header (line # lines) j =
     (if re_match False ANY_HEADER line then j else next_header lines (Suc j))"

definition section_bounds :: "ustr list \<Rightarrow> tok list list \<Rightarrow> (nat \<times> nat) option" where
  "section_bounds lines header_patterns =
     (case find_section_start lines header_patterns of
        None \<Rightarrow> None
      | Some idx \<Rightarrow>
          (let start = idx + 1;
               start = (if start < length lines \<and> strip (lines ! start) = asc ''---''
                        then start + 1 else start)
           in Some (start, next_header (drop start lines) start)))"

section \<open>Document scaffolder\<close>

text \<open>\<open>lines[k:k] = block\<close>\<close>

definition insert_lines :: "nat \<Rightarrow> ustr list \<Rightarrow> ustr list \<Rightarrow> ustr list" where
  "insert_lines k block lines = take k lines @ block @ drop k lines"

definition ISSUES_TITLE :: ustr where
  "ISSUES_TITLE = asc ''# issues found '' @ DETECTIVE_GLYPH"

definition FOUND_TITLE :: ustr where
  "FOUND_TITLE = asc ''# Found / Invalid '' @ DIVIDERS_GLYPH"

definition REPORTS_TITLE :: ustr where
  "REPORTS_TITLE = asc ''# reports written '' @ MEMO_GLYPH"

definition BUGS_TITLE :: ustr where
  "BUGS_TITLE = asc ''# bugs '' @ BUG_GLYPH"

text \<open>
  The end of the header block, as \<open>find_or_create_sections\<close> and
  \<open>parse_date_and_header_end\<close> both compute it: skip an optional divider at index 1,
  then the lines up to the first blank one, then that blank line.
\<close>

definition header_end :: "ustr list \<Rightarrow> nat" where
  "header_end lines =
     (let idx = 1;
          idx = (if idx < length lines \<and> strip (lines ! idx) = asc ''---'' then idx + 1 else idx);
          idx = idx + length (takeWhile (\<lambda>l. strip l \<noteq> []) (drop idx lines));
          idx = (if idx < length lines \<and> strip (lines ! idx) = [] then idx + 1 else idx)
      in idx)"

definition startswith :: "ustr \<Rightarrow> ustr \<Rightarrow> bool" where
  "startswith s p \<longleftrightarrow> take (length p) s = p"

text \<open>The four steps of \<open>find_or_create_sections\<close> (\<open>testv021.py\<close>) on the pair of the lines and \<open>changed\<close>.\<close>

definition create_issues :: "ustr list \<times> bool \<Rightarrow> ustr list \<times> bool" where
  "create_issues st =
     (let (lines, changed) = st in
      if section_bounds lines ISSUES_HEADERS = None then
        (let insert_at = (if lines \<noteq> [] \<and> startswith (hd lines) (asc ''# '')
                          then header_end lines else length lines)
         in (insert_lines insert_at [ISSUES_TITLE, asc ''---'', []] lines, True))
      else (lines, changed))"

definition create_after :: "tok list list \<Rightarrow> tok list list \<Rightarrow> ustr \<Rightarrow> ustr list \<times> bool \<Rightarrow> ustr list \<times> bool" where
  "create_after header_patterns previous title st =
     (let (lines, changed) = st in
      if section_bounds lines header_patterns = None then
        (let insert_at = (case section_bounds lines previous of Some b \<Rightarrow> snd b | None \<Rightarrow> length lines)
         in (insert_lines insert_at [title, asc ''---'', []] lines, True))
      else (lines, changed))"

definition find_or_create_sections :: "ustr \<Rightarrow> ustr" where
  "find_or_create_sections text =
     (let st = (splitlines text, False);
          st = create_issues st;
          st = create_after FOUND_HEADERS ISSUES_HEADERS FOUND_TITLE st;
          st = create_after REPORTS_HEADERS FOUND_HEADERS REPORTS_TITLE st;
          st = create_after BUGS_HEADERS REPORTS_HEADERS BUGS_TITLE st;
          (lines, changed) = st;
          out = join_nl lines
      in if changed then ensure_nl out else text)"

text \<open>
  \<open>find_or_create_sections\<close> of \<open>test.py\<close>, the earlier version of the program, which
  has no Found/Invalid section: Reports Written follows Issues Found.
\<close>

definition find_or_create_sections_test :: "ustr \<Rightarrow> ustr" where
  "find_or_create_sections_test text =
     (let st = (splitlines text, False);
          st = create_issues st;
          st = create_after REPORTS_HEADERS ISSUES_HEADERS REPORTS_TITLE st;
          st = create_after BUGS_HEADERS REPORTS_HEADERS BUGS_TITLE st;
          (lines, changed) = st;
          out = join_nl lines
      in if changed then ensure_nl out else text)"

section \<open>Issue ledger\<close>

text \<open>
  The exceptions the engine's code can raise: an index outside a list, unpacking
  \<open>None\<close>, and encoding a surrogate code point as UTF-8.
\<close>

datatype error = IndexError | TypeError | UnicodeEncodeError

text \<open>
  The decimal digits of Unicode (\<open>\d\<close>, \<open>str.isdecimal\<close>) come in 66 runs of ten;
  \<open>DIGIT_ZEROS\<close> lists the code point of the zero of each run.
\<close>

definition DIGIT_ZEROS :: "nat list" where
  "DIGIT_ZEROS = [48, 1632, 1776, 1984, 2406, 2534, 2662, 2790, 2918, 3046, 3174, 3302, 3430, 3558,
     3664, 3792, 3872, 4160, 4240, 6112, 6160, 6470, 6608, 6784, 6800, 6992, 7088, 7232, 7248, 42528,
     43216, 43264, 43472, 43504, 43600, 44016, 65296, 66720, 68912, 69734, 69872, 69942, 70096, 70384,
     70736, 70864, 71248, 71360, 71472, 71904, 72016, 72784, 73040, 73120, 92768, 92864, 93008, 120782,
     120792, 120802, 120812, 120822, 123200, 123632, 125264, 130032]"

definition digit_val :: "nat \<Rightarrow> nat option" where
  "digit_val c = map_option (\<lambda>z. c - z) (find (\<lambda>z. z \<le> c \<and> c < z + 10) DIGIT_ZEROS)"

definition is_decimal :: "nat \<Rightarrow> bool" where
  "is_decimal c \<longleftrightarrow> digit_val c \<noteq> None"

text \<open>\<open>int(hh)\<close> for a string of decimal digits.\<close>

definition int_of_digits :: "ustr \<Rightarrow> nat" where
  "int_of_digits ds = foldl (\<lambda>n c. 10 * n + the (digit_val c)) 0 ds"

text \<open>
  \<open>normalize_time_12h\<close>. The wall-clock time \<open>datetime.now().strftime("%I:%M %p")\<close>
  is the parameter \<open>now\<close>. The pattern is
  \<open>\s*(\d{1,2}):(\d{2})\s*([AaPp][Mm])?\s*\<close>, matched against the whole stripped string:
  \<open>after_minutes\<close> reads what follows the minutes and returns the meridiem group.
\<close>

definition after_minutes :: "ustr \<Rightarrow> ustr option option" where
  "after_minutes r =
     (let r1 = dropWhile is_space r in
      if length r1 \<ge> 2 \<and> r1 ! 0 \<in> {65, 97, 80, 112} \<and> r1 ! 1 \<in> {77, 109}
         \<and> dropWhile is_space (drop 2 r1) = []
      then Some (Some (take 2 r1))
      else if r1 = [] then Some None
      else None)"

definition upper_ascii :: "ustr \<Rightarrow> ustr" where
  "upper_ascii s = map (\<lambda>c. if 97 \<le> c \<and> c \<le> 122 then c - 32 else c) s"

definition two_digits :: "nat \<Rightarrow> ustr" where
  "two_digits n = (if n < 10 then 48 # str_nat n else str_nat n)"

definition normalize_time_12h :: "ustr \<Rightarrow> ustr \<Rightarrow> ustr" where
  "normalize_time_12h now t0 =
     (let t = strip t0;
          t = dropWhile is_space t;
          n = (if length t \<ge> 3 \<and> is_decimal (t ! 0) \<and> is_decimal (t ! 1) \<and> t ! 2 = 58 then 2
               else if length t \<ge> 2 \<and> is_decimal (t ! 0) \<and> t ! 1 = 58 then 1 else 0);
          hh = take n t;
          mm = take 2 (drop (n + 1) t)
      in if strip t0 = [] then now
         else if n > 0 \<and> length mm = 2 \<and> list_all is_decimal mm then
           (case after_minutes (drop (n + 3) t) of
              Some (Some ampm) \<Rightarrow> two_digits (int_of_digits hh) @ asc '':'' @ mm @ asc '' '' @ upper_ascii ampm
            | Some None \<Rightarrow> two_digits (int_of_digits hh) @ asc '':'' @ mm
            | None \<Rightarrow> now)
         else now)"

text \<open>An issue: the dictionary with the keys \<open>time\<close>, \<open>platform\<close> and \<open>desc\<close>.\<close>

record event =
  ev_time :: ustr
  ev_platform :: ustr
  ev_desc :: ustr

text \<open>\<open>f"- [{ev['time']}][{ev['platform']}] {ev['desc']}"\<close>\<close>

definition issue_line :: "event \<Rightarrow> ustr" where
  "issue_line ev = asc ''- ['' @ ev_time ev @ asc '']['' @ ev_platform ev @ asc ''] '' @ ev_desc ev"

text \<open>
  The compiled pattern \<open>^- \[time\]\[platform\]\s+\<close>, time and platform escaped, and
  \<open>pref.match(line)\<close>.
\<close>

definition pref_match :: "event \<Rightarrow> ustr \<Rightarrow> bool" where
  "pref_match ev line =
     re_match False [Lit (asc ''- ['' @ ev_time ev @ asc '']['' @ ev_platform ev @ asc '']''), Ws1] line"

text \<open>
  \<open>for i in range(start, end): if P(lines[i]): ...; break\<close>: the first index of the
  range whose line satisfies \<open>P\<close>, or the \<open>IndexError\<close> of \<open>lines[i]\<close>.
\<close>

fun scan_lines :: "(ustr \<Rightarrow> bool) \<Rightarrow> ustr list \<Rightarrow> nat list \<Rightarrow> error + nat option" where
  "scan_lines P lines [] = Inr None"
| "scan_lines P lines (i # rest) =
     (if i \<ge> length lines then Inl IndexError
      else if P (lines ! i) then Inr (Some i)
      else scan_lines P lines rest)"

text \<open>\<open>del lines[i]\<close>\<close>

definition delete_at :: "nat \<Rightarrow> ustr list \<Rightarrow> ustr list" where
  "delete_at i lines = take i lines @ drop (Suc i) lines"

text \<open>
  The removal that \<open>delete_issue_line\<close>, \<open>move_issue_to_found\<close> and
  \<open>append_bug_and_move_issue\<close> of \<open>testv021.py\<close> share: the first line of the range whose
  stripped text is the issue line, else the first that matches the prefix pattern.
\<close>

definition remove_issue :: "ustr list \<Rightarrow> nat \<times> nat \<Rightarrow> event \<Rightarrow> error + ustr list" where
  "remove_issue lines ib ev =
     (case scan_lines (\<lambda>l. strip l = issue_line ev) lines [fst ib..<snd ib] of
        Inl e \<Rightarrow> Inl e
      | Inr (Some i) \<Rightarrow> Inr (delete_at i lines)
      | Inr None \<Rightarrow>
          (case scan_lines (pref_match ev) lines [fst ib..<snd ib] of
             Inl e \<Rightarrow> Inl e
           | Inr (Some i) \<Rightarrow> Inr (delete_at i lines)
           | Inr None \<Rightarrow> Inr lines))"

definition delete_issue_line :: "ustr \<Rightarrow> event \<Rightarrow> error + ustr" where
  "delete_issue_line text ev =
     (let lines = splitlines text in
      case section_bounds lines ISSUES_HEADERS of
        None \<Rightarrow> Inr text
      | Some ib \<Rightarrow>
          (case remove_issue lines ib ev of
             Inl e \<Rightarrow> Inl e
           | Inr lines \<Rightarrow> Inr (ensure_nl (join_nl lines))))"

text \<open>
  \<open>add_issue_line\<close>. The case table of \<open>platform.lower()\<close> belongs to the Python
  runtime, not to the repository: \<open>str.lower\<close> is the parameter \<open>lowercase\<close>, and what
  is proved holds for every such function. \<open>scaffold\<close> is \<open>find_or_create_sections\<close> of
  the file the function is in: the two versions differ in nothing else.
\<close>

definition add_issue_line_in ::
    "(ustr \<Rightarrow> ustr) \<Rightarrow> (ustr \<Rightarrow> ustr) \<Rightarrow> ustr \<Rightarrow> ustr \<Rightarrow> ustr \<Rightarrow> ustr \<Rightarrow> ustr \<Rightarrow> error + ustr" where
  "add_issue_line_in scaffold lowercase now text0 time_str platform desc =
     (let text = scaffold text0;
          lines = splitlines text;
          ib = section_bounds lines ISSUES_HEADERS;
          (text, lines, ib) =
            (if ib = None then
               (let text = scaffold text; lines = splitlines text
                in (text, lines, section_bounds lines ISSUES_HEADERS))
             else (text, lines, ib))
      in case ib of
           None \<Rightarrow> Inl TypeError
         | Some (start, end) \<Rightarrow>
             (let newline = asc ''- ['' @ normalize_time_12h now time_str @ asc '']['' @ lowercase platform
                    @ asc ''] '' @ strip desc;
                  lines = insert_lines end [newline] lines
              in Inr (ensure_nl (join_nl lines))))"

text \<open>\<open>add_issue_line\<close> of \<open>testv021.py\<close> and of \<open>test.py\<close>.\<close>

definition add_issue_line :: "(ustr \<Rightarrow> ustr) \<Rightarrow> ustr \<Rightarrow> ustr \<Rightarrow> ustr \<Rightarrow> ustr \<Rightarrow> ustr \<Rightarrow> error + ustr" where
  "add_issue_line = add_issue_line_in find_or_create_sections"

definition add_issue_line_test :: "(ustr \<Rightarrow> ustr) \<Rightarrow> ustr \<Rightarrow> ustr \<Rightarrow> ustr \<Rightarrow> ustr \<Rightarrow> ustr \<Rightarrow> error + ustr" where
  "add_issue_line_test = add_issue_line_in find_or_create_sections_test"

section \<open>Found/Invalid tagger\<close>

definition ensure_section ::
    "ustr list \<Rightarrow> tok list list \<Rightarrow> tok list list \<Rightarrow> ustr \<Rightarrow> ustr list \<times> (nat \<times> nat) option" where
  "ensure_section lines header_patterns insert_after_patterns title_line =
     (case section_bounds lines header_patterns of
        Some b \<Rightarrow> (lines, Some b)
      | None \<Rightarrow>
          (let insert_at = (case section_bounds lines insert_after_patterns of
                              Some after \<Rightarrow> snd after | None \<Rightarrow> length lines);
               lines = insert_lines insert_at [title_line, asc ''---'', []] lines
           in (lines, section_bounds lines header_patterns)))"

definition move_issue_to_found :: "ustr \<Rightarrow> event \<Rightarrow> ustr \<Rightarrow> error + ustr" where
  "move_issue_to_found text0 ev bugnum =
     (let text = find_or_create_sections text0;
          lines = splitlines text;
          ib = section_bounds lines ISSUES_HEADERS;
          (lines, fb) = ensure_section lines FOUND_HEADERS ISSUES_HEADERS FOUND_TITLE
      in if ib = None \<or> fb = None then
           Inr (join_nl lines @ (if \<not> endswith_nl text then [NL] else []))
         else
           (case remove_issue lines (the ib) ev of
              Inl e \<Rightarrow> Inl e
            | Inr lines \<Rightarrow>
                (let fend = (case section_bounds lines FOUND_HEADERS of
                               Some fb2 \<Rightarrow> snd fb2 | None \<Rightarrow> length lines);
                     new_line = (if strip bugnum \<noteq> []
                                 then asc ''- ['' @ strip bugnum @ asc ''] ['' @ ev_time ev @ asc ''][''
                                      @ ev_platform ev @ asc ''] '' @ ev_desc ev
                                 else issue_line ev);
                     lines = insert_lines fend [new_line] lines
                 in Inr (ensure_nl (join_nl lines)))))"

section \<open>Steps block\<close>

text \<open>
  The numbering loop shared by both branches of \<open>build_steps_block\<close>:
  \<open>for ln in lines: ln = ln.strip(); if ln: lines.append(f"{n}. {ln}"); n += 1\<close>.
  The state is the pair of the output lines and the counter.
\<close>

fun number_steps :: "ustr list \<Rightarrow> ustr list \<times> nat \<Rightarrow> ustr list \<times> nat" where
  "number_steps [] st = st"
| "number_steps (ln # rest) (out, n) =
     (if strip ln \<noteq> [] then number_steps rest (out @ [str_nat n @ asc ''. '' @ strip ln], n + 1)
      else number_steps rest (out, n))"

definition STEP1 :: ustr where
  "STEP1 = asc ''Launch the title > create or select build / save.''"

definition base2 :: "ustr \<Rightarrow> ustr" where
  "base2 template_key =
     (if template_key = asc ''gen5'' then asc ''Enter the City.'' else asc ''Enter the Neighborhood.'')"

text \<open>\<open>build_steps_block\<close> of \<open>test.py\<close>.\<close>

definition build_steps_block :: "ustr \<Rightarrow> ustr \<Rightarrow> ustr list \<Rightarrow> ustr" where
  "build_steps_block template_key mode extra_lines =
     (if mode = asc ''default'' then
        (let (out, n) = number_steps extra_lines
               ([asc ''Steps to Reproduce:'', asc ''1. '' @ STEP1, asc ''2. '' @ base2 template_key], 3)
         in join_nl (if n = 3 then out @ [asc ''3. ''] else out))
      else
        (let (out, n) = number_steps extra_lines ([asc ''Steps to Reproduce:''], 1)
         in join_nl (if n = 1 then out @ [asc ''1. ''] else out)))"

text \<open>\<open>default_plain_steps_lines\<close> and \<open>build_steps_block_numbered\<close> of \<open>testv021.py\<close>.\<close>

definition default_plain_steps_lines :: "ustr \<Rightarrow> ustr list" where
  "default_plain_steps_lines platform =
     (let key = (case classify_platform platform of Some k \<Rightarrow> k | None \<Rightarrow> asc ''gen5'')
      in [STEP1, base2 key])"

definition build_steps_block_numbered :: "ustr \<Rightarrow> ustr \<Rightarrow> ustr list \<Rightarrow> ustr" where
  "build_steps_block_numbered template_key mode plain_lines =
     (if mode = asc ''default'' then
        (let (out, n) = number_steps plain_lines
               ([asc ''Steps to Reproduce:'', asc ''1. '' @ STEP1, asc ''2. '' @ base2 template_key], 3)
         in join_nl (if n = 3 then out @ [asc ''3. ''] else out))
      else
        (let (out, n) = number_steps plain_lines ([asc ''Steps to Reproduce:''], 1)
         in join_nl (if n = 1 then out @ [asc ''1. ''] else out)))"

text \<open>
  The steps block as \<open>append_bug_and_move_issue\<close> of \<open>testv021.py\<close> computes it
  (\<open>template_key\<close>, \<open>base_lines\<close>, \<open>merged_plain\<close>, \<open>steps_block\<close>).
\<close>

definition promoted_steps_block :: "ustr \<Rightarrow> ustr \<Rightarrow> ustr list \<Rightarrow> ustr" where
  "promoted_steps_block platform steps_mode plain_lines =
     (let template_key = (case classify_platform platform of Some k \<Rightarrow> k | None \<Rightarrow> asc ''gen5'');
          base_lines = (if steps_mode = asc ''default'' then default_plain_steps_lines platform else []);
          merged_plain = base_lines @ filter (\<lambda>ln. ln \<notin> set base_lines) plain_lines
      in build_steps_block_numbered template_key
           (if steps_mode = asc ''default'' then asc ''default'' else asc ''custom'') merged_plain)"

text \<open>
  What a numbered block is, in the words of the specification: the non-blank lines,
  stripped, numbered consecutively from a first number.
\<close>

fun numbered :: "nat \<Rightarrow> ustr list \<Rightarrow> ustr list" where
  "numbered n [] = []"
| "numbered n (k # ks) = (str_nat n @ asc ''. '' @ k) # numbered (Suc n) ks"

definition nonblank :: "ustr list \<Rightarrow> ustr list" where
  "nonblank ls = filter (\<lambda>l. l \<noteq> []) (map strip ls)"

text \<open>A line without line-break characters, as \<open>splitlines\<close> returns them.\<close>

definition clean :: "ustr \<Rightarrow> bool" where
  "clean l = list_all (\<lambda>c. \<not> is_linebreak c) l"

text \<open>Re-reading what the engine writes gives the lines back, but for one empty last line.\<close>

definition drop_last_blank :: "ustr list \<Rightarrow> ustr list" where
  "drop_last_blank ls = (if length ls \<ge> 2 \<and> last ls = [] then butlast ls else ls)"

definition has_section :: "tok list list \<Rightarrow> ustr list \<Rightarrow> bool" where
  "has_section header_patterns lines = list_ex (is_header header_patterns) lines"

definition all_sections :: "ustr list \<Rightarrow> bool" where
  "all_sections lines \<longleftrightarrow> has_section ISSUES_HEADERS lines \<and> has_section FOUND_HEADERS lines
     \<and> has_section REPORTS_HEADERS lines \<and> has_section BUGS_HEADERS lines"

text \<open>The three sections of \<open>test.py\<close>.\<close>

definition all_sections_test :: "ustr list \<Rightarrow> bool" where
  "all_sections_test lines \<longleftrightarrow> has_section ISSUES_HEADERS lines
     \<and> has_section REPORTS_HEADERS lines \<and> has_section BUGS_HEADERS lines"

text \<open>The four section headers come in the canonical order.\<close>

definition canonical_order :: "ustr list \<Rightarrow> bool" where
  "canonical_order lines =
     (case (find_section_start lines ISSUES_HEADERS, find_section_start lines FOUND_HEADERS,
            find_section_start lines REPORTS_HEADERS, find_section_start lines BUGS_HEADERS) of
        (Some i, Some f, Some r, Some b) \<Rightarrow> i < f \<and> f < r \<and> r < b
      | _ \<Rightarrow> False)"

text \<open>A document with the four sections, for the concrete checks.\<close>

definition doc4 :: ustr where
  "doc4 = join_nl [asc ''# issues found'', asc ''# found'', asc ''# reports written'', asc ''# bugs'', []]"

text \<open>A line that ends a section, and the divider line under a header.\<close>

definition any_header :: "ustr \<Rightarrow> bool" where
  "any_header line = re_match False ANY_HEADER line"

definition is_divider :: "ustr \<Rightarrow> bool" where
  "is_divider line \<longleftrightarrow> strip line = asc ''---''"

text \<open>The content of a section: \<open>lines[start:end]\<close>, empty when the section is absent.\<close>

definition section_lines :: "tok list list \<Rightarrow> ustr list \<Rightarrow> ustr list" where
  "section_lines header_patterns lines =
     (case section_bounds lines header_patterns of
        None \<Rightarrow> []
      | Some (start, end) \<Rightarrow> take (end - start) (drop start lines))"

text \<open>A line that the removal loop takes for the issue: the exact text, or the prefix.\<close>

definition issue_match :: "event \<Rightarrow> ustr \<Rightarrow> bool" where
  "issue_match ev line \<longleftrightarrow> strip line = issue_line ev \<or> pref_match ev line"

text \<open>An issue and a document for the concrete checks.\<close>

definition ev0 :: event where
  "ev0 = \<lparr>ev_time = asc ''10:00 AM'', ev_platform = asc ''ps5'', ev_desc = asc ''Crash on load''\<rparr>"

definition doc_issue_lines :: "ustr list" where
  "doc_issue_lines = [asc ''# issues found'', asc ''- [09:15 AM][pc] Menu flicker'', asc ''# found'',
     asc ''# reports written'', asc ''# bugs'', asc ''old'']"

definition doc_issue :: ustr where
  "doc_issue = join_nl doc_issue_lines @ [NL]"

text \<open>
  The shape of a document around a section: the lines \<open>A\<close> before its header \<open>h\<close>, the
  lines \<open>C\<close> up to the next header (the divider, if any, and the content), and the rest
  \<open>D\<close>. \<open>body C\<close> is \<open>C\<close> without the divider.
\<close>

definition shape :: "tok list list \<Rightarrow> ustr list \<Rightarrow> ustr list \<Rightarrow> ustr \<Rightarrow> ustr list \<Rightarrow> ustr list \<Rightarrow> bool" where
  "shape pats L A h C D \<longleftrightarrow>
     L = A @ h # C @ D \<and> \<not> has_section pats A \<and> is_header pats h \<and>
     list_all (\<lambda>l. \<not> any_header l) C \<and> (D = [] \<or> any_header (hd D))"

definition body :: "ustr list \<Rightarrow> ustr list" where
  "body C = (if C \<noteq> [] \<and> is_divider (hd C) then tl C else C)"

text \<open>
  The entry that Move writes, in the words of the specification: the issue line,
  with the bug-number tag put before the time when the tag is not empty.
\<close>

definition found_entry :: "event \<Rightarrow> ustr \<Rightarrow> ustr" where
  "found_entry ev bugnum =
     (if strip bugnum \<noteq> [] then asc ''- ['' @ strip bugnum @ asc ''] '' @ drop 2 (issue_line ev)
      else issue_line ev)"

text \<open>The first letter of a header line, after \<open>#\<close> and the spaces, case folded.\<close>

definition header_letter :: "ustr \<Rightarrow> nat option" where
  "header_letter l = (case dropWhile is_space (tl (strip l)) of [] \<Rightarrow> None | c # _ \<Rightarrow> Some (fold_case c))"

text \<open>The line that Append writes: the issue line of the normalised fields.\<close>

definition new_issue_line :: "(ustr \<Rightarrow> ustr) \<Rightarrow> ustr \<Rightarrow> ustr \<Rightarrow> ustr \<Rightarrow> ustr \<Rightarrow> ustr" where
  "new_issue_line lowercase now time_str platform desc =
     issue_line \<lparr>ev_time = normalize_time_12h now time_str, ev_platform = lowercase platform,
       ev_desc = strip desc\<rparr>"

text \<open>A header line of one of the four sections.\<close>

definition section_header :: "ustr \<Rightarrow> bool" where
  "section_header l \<longleftrightarrow> is_header ISSUES_HEADERS l \<or> is_header FOUND_HEADERS l
     \<or> is_header REPORTS_HEADERS l \<or> is_header BUGS_HEADERS l"

text \<open>The header line of a section: the first line that matches its patterns.\<close>

definition header_line :: "tok list list \<Rightarrow> ustr list \<Rightarrow> ustr" where
  "header_line pats lines = lines ! the (find_section_start lines pats)"

text \<open>
  The bytes of a section. \<open>splitlines_keep\<close> is \<open>str.splitlines(keepends=True)\<close>: the
  lines with their line breaks. The section's bytes are the lines \<open>start\<close> to \<open>end\<close> of
  the text with their line breaks, \<open>start\<close> and \<open>end\<close> being the bounds the engine
  computes. \<open>nl_terminated\<close>: each of these lines ends with \<open>"\n"\<close>.
\<close>

fun splitlines_keep_from :: "ustr \<Rightarrow> ustr \<Rightarrow> ustr list" where
  "splitlines_keep_from cur [] = (if cur = [] then [] else [cur])"
| "splitlines_keep_from cur (c # cs) =
     (if c = 13 \<and> cs \<noteq> [] \<and> hd cs = 10 then (cur @ [13, 10]) # splitlines_keep_from [] (tl cs)
      else if is_linebreak c then (cur @ [c]) # splitlines_keep_from [] cs
      else splitlines_keep_from (cur @ [c]) cs)"

definition splitlines_keep :: "ustr \<Rightarrow> ustr list" where
  "splitlines_keep s = splitlines_keep_from [] s"

definition section_raw :: "tok list list \<Rightarrow> ustr \<Rightarrow> ustr list" where
  "section_raw pats text =
     (case section_bounds (splitlines text) pats of
        None \<Rightarrow> []
      | Some (start, end) \<Rightarrow> take (end - start) (drop start (splitlines_keep text)))"

definition section_bytes :: "tok list list \<Rightarrow> ustr \<Rightarrow> ustr" where
  "section_bytes pats text = concat (section_raw pats text)"

definition nl_terminated :: "tok list list \<Rightarrow> ustr \<Rightarrow> bool" where
  "nl_terminated pats text \<longleftrightarrow>
     section_raw pats text = map (\<lambda>l. l @ [NL]) (section_lines pats (splitlines text))"

text \<open>The document \<open>doc_issue\<close> followed by an empty line.\<close>

definition doc_blank_end :: ustr where
  "doc_blank_end = join_nl (doc_issue_lines @ [[], []])"

text \<open>
  The result of \<open>add_issue_line\<close> on a document \<open>d\<close> that has its sections, \<open>x\<close> being
  the new line: the lines of \<open>d\<close> with \<open>x\<close> put at the end bound of Issues Found, joined
  with \<open>"\n"\<close> and ended with a newline.
\<close>

definition with_issue :: "ustr \<Rightarrow> ustr \<Rightarrow> ustr" where
  "with_issue x d =
     ensure_nl (join_nl (insert_lines (snd (the (section_bounds (splitlines d) ISSUES_HEADERS))) [x]
       (splitlines d)))"

text \<open>
  A section that runs to the end of a document whose last line is empty: the one
  place where rewriting the document drops a line of a section.
\<close>

definition runs_to_blank_end :: "tok list list \<Rightarrow> ustr list \<Rightarrow> bool" where
  "runs_to_blank_end pats lines \<longleftrightarrow>
     lines \<noteq> [] \<and> last lines = [] \<and> map_option snd (section_bounds lines pats) = Some (length lines)"

text \<open>
  Documents and a description for the concrete checks: the Bugs header, then the
  Issues Found header, written with no space after \<open>#\<close>, inside another section; a
  form feed inside a line of Bugs; a description of three lines.
\<close>

definition doc_bugs_inside :: ustr where
  "doc_bugs_inside = join_nl [asc ''# issues found'', asc ''#bugs'', asc ''old'', asc ''# found'',
     asc ''# reports written''] @ [NL]"

definition doc_issues_inside :: ustr where
  "doc_issues_inside = join_nl [asc ''# bugs'', asc ''old'', asc ''#issues found'', asc ''# found'',
     asc ''# reports written''] @ [NL]"

definition doc_form_feed :: ustr where
  "doc_form_feed = join_nl [asc ''# issues found'', asc ''# found'', asc ''# reports written'',
     asc ''# bugs'', asc ''old'' @ [12] @ asc ''more''] @ [NL]"

definition desc_lines :: ustr where
  "desc_lines = asc ''x'' @ [NL] @ asc ''# bugs'' @ [NL] @ asc ''y''"


text \<open>A document with none of the four sections, and the three lines the scaffolder writes for a section.\<close>

definition no_sections :: "ustr list \<Rightarrow> bool" where
  "no_sections lines \<longleftrightarrow> \<not> has_section ISSUES_HEADERS lines \<and> \<not> has_section FOUND_HEADERS lines
     \<and> \<not> has_section REPORTS_HEADERS lines \<and> \<not> has_section BUGS_HEADERS lines"

definition section_block :: "ustr \<Rightarrow> ustr list" where
  "section_block title = [title, asc ''---'', []]"

section \<open>Header block\<close>

text \<open>\<open>ALL_PLATFORMS = sorted(GEN4_PLATFORMS | GEN5_PLATFORMS)\<close>, of \<open>testv021.py\<close> and of \<open>test.py\<close>.\<close>

definition ALL_PLATFORMS :: "ustr list" where
  "ALL_PLATFORMS = [asc ''laptop'', asc ''nx1'', asc ''nx2'', asc ''pc'', asc ''ps4'', asc ''ps5'',
     asc ''steamdeck'', asc ''xb1'', asc ''xbx'']"

definition ALL_PLATFORMS_test :: "ustr list" where
  "ALL_PLATFORMS_test = [asc ''nx1'', asc ''nx2'', asc ''pc'', asc ''ps4'', asc ''ps5'', asc ''xb1'', asc ''xbx'']"

text \<open>
  \<open>re.finditer(pattern, text, re.MULTILINE)\<close> for a pattern that starts with \<open>^\<close> and
  matches no empty string. \<open>m\<close> matches the rest of the pattern at the start of a
  string and returns the groups and the length of the match. The text is scanned
  from left to right; \<open>bol\<close> tells that the position is the start of the text or
  follows \<open>"\n"\<close>, where \<open>^\<close> matches; \<open>skip\<close> counts the characters of the last match
  that are still to be passed.
\<close>

fun finditer :: "(ustr \<Rightarrow> ('a \<times> nat) option) \<Rightarrow> nat \<Rightarrow> bool \<Rightarrow> ustr \<Rightarrow> 'a list" where
  "finditer m skip bol [] = []"
| "finditer m skip bol (c # cs) =
     (if skip > 0 then finditer m (skip - 1) (c = NL) cs
      else if bol then
        (case m (c # cs) of
           Some (g, n) \<Rightarrow> g # finditer m (n - 1) (c = NL) cs
         | None \<Rightarrow> finditer m 0 (c = NL) cs)
      else finditer m 0 (c = NL) cs)"

text \<open>
  The end \<open>\s*$\<close> of a pattern under \<open>re.MULTILINE\<close>: the greedy run of whitespace is
  given back until \<open>$\<close> matches, at the end of the text or before \<open>"\n"\<close>. The result is
  the number of characters matched.
\<close>

definition ws_dollar :: "ustr \<Rightarrow> nat option" where
  "ws_dollar s =
     (let w = takeWhile is_space s in
      if length w = length s then Some (length w)
      else if NL \<in> set w then Some (length w - 1 - length (takeWhile (\<lambda>c. c \<noteq> NL) (rev w)))
      else None)"

text \<open>The class \<open>[a-z0-9]\<close> under \<open>re.IGNORECASE\<close>.\<close>

definition is_key_char :: "nat \<Rightarrow> bool" where
  "is_key_char c \<longleftrightarrow> (let d = fold_case c in (48 \<le> d \<and> d \<le> 57) \<or> (97 \<le> d \<and> d \<le> 122))"

text \<open>
  \<open>^- \[([a-z0-9]+)\]\[([^\]]+)\]\s*$\<close> at the start of a line. Each greedy group is
  followed by a character outside its class, so there is one way to match.
\<close>

definition match_user :: "ustr \<Rightarrow> ((ustr \<times> ustr) \<times> nat) option" where
  "match_user s =
     (let r1 = drop 3 s; g1 = takeWhile is_key_char r1; r2 = drop (length g1) r1;
          r3 = drop 2 r2; g2 = takeWhile (\<lambda>c. c \<noteq> 93) r3; r4 = drop (length g2) r3
      in if startswith s (asc ''- ['') \<and> g1 \<noteq> [] \<and> startswith r2 (asc '']['') \<and> g2 \<noteq> [] \<and> r4 \<noteq> [] then
           (case ws_dollar (tl r4) of
              None \<Rightarrow> None
            | Some k \<Rightarrow> Some ((g1, g2), 3 + length g1 + 2 + length g2 + 1 + k))
         else None)"

text \<open>\<open>parse_usernames\<close>, the dictionary as a map; \<open>platforms\<close> is \<open>ALL_PLATFORMS\<close>.\<close>

definition parse_usernames_in :: "ustr list \<Rightarrow> ustr \<Rightarrow> (ustr \<rightharpoonup> ustr)" where
  "parse_usernames_in platforms text =
     foldl (\<lambda>usernames (g1, g2).
         (let key = lower g1; val = strip g2 in
          if key \<in> {asc ''gen4'', asc ''gen5''} \<and> val \<noteq> [] \<and> list_all is_decimal val then usernames
          else if key \<in> set platforms then usernames(key \<mapsto> val)
          else usernames))
       Map.empty (finditer match_user 0 True text)"

definition parse_usernames :: "ustr \<Rightarrow> (ustr \<rightharpoonup> ustr)" where
  "parse_usernames = parse_usernames_in ALL_PLATFORMS"

definition parse_usernames_test :: "ustr \<Rightarrow> (ustr \<rightharpoonup> ustr)" where
  "parse_usernames_test = parse_usernames_in ALL_PLATFORMS_test"

text \<open>
  \<open>^- \[(gen4|gen5)\]\[(\d+)\]\s*-->\s*build number\s*$\<close> at the start of a line, under
  \<open>re.IGNORECASE\<close>.
\<close>

definition match_build :: "ustr \<Rightarrow> ((ustr \<times> ustr) \<times> nat) option" where
  "match_build s =
     (let r1 = drop 3 s; g1 = take 4 r1; r2 = drop 4 r1;
          r3 = drop 2 r2; g2 = takeWhile is_decimal r3; r4 = drop (length g2 + 1) r3;
          w1 = takeWhile is_space r4; r5 = drop (length w1) r4;
          r6 = drop 3 r5; w2 = takeWhile is_space r6; r7 = drop (length w2) r6;
          r8 = drop 12 r7
      in if startswith s (asc ''- ['')
            \<and> length g1 = 4 \<and> (lit_match True (asc ''gen4'') g1 \<or> lit_match True (asc ''gen5'') g1)
            \<and> startswith r2 (asc '']['') \<and> g2 \<noteq> [] \<and> startswith (drop (length g2) r3) (asc '']'')
            \<and> startswith r5 (asc ''-->'')
            \<and> length r7 \<ge> 12 \<and> lit_match True (asc ''build number'') r7 then
           (case ws_dollar r8 of
              None \<Rightarrow> None
            | Some k \<Rightarrow> Some ((g1, g2), 3 + 4 + 2 + length g2 + 1 + length w1 + 3 + length w2 + 12 + k))
         else None)"

text \<open>\<open>parse_builds\<close>: the pair \<open>(gen4, gen5)\<close>.\<close>

definition parse_builds :: "ustr \<Rightarrow> ustr \<times> ustr" where
  "parse_builds text =
     foldl (\<lambda>(gen4, gen5) (g1, g2). if lower g1 = asc ''gen4'' then (g2, gen5) else (gen4, g2))
       ([], []) (finditer match_build 0 True text)"

text \<open>
  \<open>str.isdigit\<close>: the decimal digits and the code points with the property
  \<open>Numeric_Type=Digit\<close> (CPython 3.11, Unicode 14).
\<close>

definition OTHER_DIGITS :: "(nat \<times> nat) list" where
  "OTHER_DIGITS = [(178, 179), (185, 185), (4969, 4977), (6618, 6618), (8304, 8304), (8308, 8313),
     (8320, 8329), (9312, 9320), (9332, 9340), (9352, 9360), (9450, 9450), (9461, 9469), (9471, 9471),
     (10102, 10110), (10112, 10120), (10122, 10130), (68160, 68163), (69216, 69224), (69714, 69722),
     (127232, 127242)]"

definition isdigit :: "ustr \<Rightarrow> bool" where
  "isdigit s \<longleftrightarrow> s \<noteq> [] \<and> list_all (\<lambda>c. is_decimal c \<or> list_ex (\<lambda>(a, b). a \<le> c \<and> c \<le> b) OTHER_DIGITS) s"

text \<open>\<open>header_only_block\<close>; \<open>platforms\<close> is \<open>sorted(ALL_PLATFORMS)\<close>.\<close>

definition header_only_block_in :: "ustr list \<Rightarrow> ustr \<Rightarrow> (ustr \<rightharpoonup> ustr) \<Rightarrow> ustr \<Rightarrow> ustr \<Rightarrow> ustr" where
  "header_only_block_in platforms date_str usernames gen4_build gen5_build =
     (let lines = [asc ''# '' @ date_str @ asc '' notes'', asc ''---''];
          lines = lines @ concat (map (\<lambda>p. case usernames p of
                      None \<Rightarrow> []
                    | Some u \<Rightarrow> if u \<noteq> [] then [asc ''- ['' @ p @ asc '']['' @ u @ asc '']''] else [])
                    platforms);
          lines = (if isdigit (strip gen4_build)
                   then lines @ [asc ''- [gen4]['' @ strip gen4_build @ asc ''] --> build number''] else lines);
          lines = (if isdigit (strip gen5_build)
                   then lines @ [asc ''- [gen5]['' @ strip gen5_build @ asc ''] --> build number''] else lines);
          lines = lines @ [[]]
      in ensure_nl (join_nl lines))"

definition header_only_block :: "ustr \<Rightarrow> (ustr \<rightharpoonup> ustr) \<Rightarrow> ustr \<Rightarrow> ustr \<Rightarrow> ustr" where
  "header_only_block = header_only_block_in ALL_PLATFORMS"

definition header_only_block_test :: "ustr \<Rightarrow> (ustr \<rightharpoonup> ustr) \<Rightarrow> ustr \<Rightarrow> ustr \<Rightarrow> ustr" where
  "header_only_block_test = header_only_block_in ALL_PLATFORMS_test"

text \<open>\<open>str.replace(old, "")\<close> for a non-empty \<open>old\<close>: \<open>skip\<close> counts the characters of the occurrence being removed.\<close>

fun remove_all :: "ustr \<Rightarrow> nat \<Rightarrow> ustr \<Rightarrow> ustr" where
  "remove_all old skip [] = []"
| "remove_all old skip (c # cs) =
     (if skip > 0 then remove_all old (skip - 1) cs
      else if startswith (c # cs) old then remove_all old (length old - 1) cs
      else c # remove_all old 0 cs)"

text \<open>\<open>parse_date_and_header_end\<close>\<close>

definition parse_date_and_header_end :: "ustr \<Rightarrow> ustr \<times> nat" where
  "parse_date_and_header_end text =
     (let lines = splitlines text;
          date_str = (if lines \<noteq> [] \<and> startswith (hd lines) (asc ''# '')
                      then remove_all (asc '' notes'') 0 (strip (drop 2 (hd lines))) else [])
      in (date_str, header_end lines))"



section \<open>Event identifier\<close>

text \<open>\<open>str.encode("utf-8")\<close>: a surrogate code point cannot be encoded.\<close>

definition utf8_char :: "nat \<Rightarrow> error + nat list" where
  "utf8_char c =
     (if c < 128 then Inr [c]
      else if c < 2048 then Inr [192 + c div 64, 128 + c mod 64]
      else if 55296 \<le> c \<and> c \<le> 57343 then Inl UnicodeEncodeError
      else if c < 65536 then Inr [224 + c div 4096, 128 + (c div 64) mod 64, 128 + c mod 64]
      else Inr [240 + c div 262144, 128 + (c div 4096) mod 64, 128 + (c div 64) mod 64, 128 + c mod 64])"

fun utf8_encode :: "ustr \<Rightarrow> error + nat list" where
  "utf8_encode [] = Inr []"
| "utf8_encode (c # cs) =
     (case utf8_char c of
        Inl e \<Rightarrow> Inl e
      | Inr b \<Rightarrow> (case utf8_encode cs of Inl e \<Rightarrow> Inl e | Inr bs \<Rightarrow> Inr (b @ bs)))"

text \<open>\<open>hashlib.sha1(raw).hexdigest()\<close>: SHA-1 (FIPS 180-4) on a list of bytes, with 32-bit words.\<close>

type_synonym w32 = "32 word"

fun be32 :: "nat list \<Rightarrow> w32" where
  "be32 [a, b, c, d] = word_of_nat (((a * 256 + b) * 256 + c) * 256 + d)"
| "be32 _ = 0"

fun chunks :: "nat \<Rightarrow> nat \<Rightarrow> 'a list \<Rightarrow> 'a list list" where
  "chunks 0 k xs = []"
| "chunks (Suc n) k xs = take k xs # chunks n k (drop k xs)"

definition sha1_pad :: "nat list \<Rightarrow> nat list" where
  "sha1_pad m =
     (let l = length m; z = (119 - l mod 64) mod 64; bits = 8 * l
      in m @ [128] @ replicate z 0 @ map (\<lambda>i. (bits div 256 ^ (7 - i)) mod 256) [0..<8])"

fun sha1_schedule :: "nat \<Rightarrow> w32 list \<Rightarrow> w32 list" where
  "sha1_schedule 0 ws = ws"
| "sha1_schedule (Suc n) ws =
     sha1_schedule n (ws @ [word_rotl 1 (ws ! (length ws - 3) XOR ws ! (length ws - 8)
                    XOR ws ! (length ws - 14) XOR ws ! (length ws - 16))])"

definition sha1_f :: "nat \<Rightarrow> w32 \<Rightarrow> w32 \<Rightarrow> w32 \<Rightarrow> w32" where
  "sha1_f t b c d =
     (if t < 20 then (b AND c) OR (NOT b AND d)
      else if t < 40 then b XOR c XOR d
      else if t < 60 then (b AND c) OR (b AND d) OR (c AND d)
      else b XOR c XOR d)"

definition sha1_k :: "nat \<Rightarrow> w32" where
  "sha1_k t = (if t < 20 then 0x5A827999 else if t < 40 then 0x6ED9EBA1
      else if t < 60 then 0x8F1BBCDC else 0xCA62C1D6)"

fun sha1_rounds :: "nat \<Rightarrow> w32 list \<Rightarrow> w32 \<times> w32 \<times> w32 \<times> w32 \<times> w32 \<Rightarrow> w32 \<times> w32 \<times> w32 \<times> w32 \<times> w32" where
  "sha1_rounds t [] s = s"
| "sha1_rounds t (w # ws) (a, b, c, d, e) =
     sha1_rounds (Suc t) ws (word_rotl 5 a + sha1_f t b c d + e + sha1_k t + w, a, word_rotl 30 b, c, d)"

definition sha1_block :: "w32 \<times> w32 \<times> w32 \<times> w32 \<times> w32 \<Rightarrow> nat list \<Rightarrow> w32 \<times> w32 \<times> w32 \<times> w32 \<times> w32" where
  "sha1_block s blk =
     (let ws = sha1_schedule 64 (map be32 (chunks 16 4 blk));
          (h0, h1, h2, h3, h4) = s;
          (a, b, c, d, e) = sha1_rounds 0 ws s
      in (h0 + a, h1 + b, h2 + c, h3 + d, h4 + e))"

definition sha1 :: "nat list \<Rightarrow> w32 list" where
  "sha1 m =
     (let p = sha1_pad m;
          (h0, h1, h2, h3, h4) = foldl sha1_block
             (0x67452301, 0xEFCDAB89, 0x98BADCFE, 0x10325476, 0xC3D2E1F0) (chunks (length p div 64) 64 p)
      in [h0, h1, h2, h3, h4])"

definition hex_digit :: "nat \<Rightarrow> nat" where
  "hex_digit n = (if n < 10 then 48 + n else 87 + n)"

definition hexdigest :: "w32 list \<Rightarrow> ustr" where
  "hexdigest hs = concat (map (\<lambda>w. map (\<lambda>i. hex_digit ((unat w div 16 ^ (7 - i)) mod 16)) [0..<8]) hs)"

text \<open>\<open>generate_event_id\<close>\<close>

definition generate_event_id :: "event \<Rightarrow> error + ustr" where
  "generate_event_id ev =
     (case utf8_encode (ev_time ev @ asc ''|'' @ ev_platform ev @ asc ''|'' @ ev_desc ev) of
        Inl e \<Rightarrow> Inl e
      | Inr raw \<Rightarrow> Inr (take 12 (hexdigest (sha1 raw))))"

section \<open>Promotion\<close>

text \<open>\<open>make_bug_block\<close> of \<open>testv021.py\<close> and of \<open>test.py\<close>: the template, filled in.\<close>

definition make_bug_block :: "ustr \<Rightarrow> ustr \<Rightarrow> ustr \<Rightarrow> ustr \<Rightarrow> ustr \<Rightarrow> ustr \<Rightarrow> ustr \<Rightarrow> ustr" where
  "make_bug_block summary platform username steps_block observed expected build_num =
     (let bugnum = asc ''null'';
          build_line = (if build_num \<noteq> [] then asc ''Build: '' @ build_num else [])
      in asc ''## ['' @ bugnum @ asc '']'' @ [NL]
         @ asc ''---'' @ [NL]
         @ asc ''**summary:** '' @ summary @ [NL]
         @ [NL]
         @ asc ''**Platform:** '' @ platform @ [NL]
         @ asc ''**Username:** '' @ username @ [NL]
         @ [NL]
         @ steps_block @ [NL]
         @ [NL]
         @ asc ''Observed Results:'' @ [NL]
         @ observed @ [NL]
         @ [NL]
         @ asc ''Expected Results:'' @ [NL]
         @ expected @ [NL]
         @ build_line @ [NL])"

definition make_bug_block_test :: "ustr \<Rightarrow> ustr \<Rightarrow> ustr \<Rightarrow> ustr \<Rightarrow> ustr \<Rightarrow> ustr \<Rightarrow> ustr" where
  "make_bug_block_test summary platform username steps_block observed expected =
     asc ''## [null]'' @ [NL]
     @ asc ''---'' @ [NL]
     @ asc ''**summary:** '' @ summary @ [NL]
     @ [NL]
     @ asc ''**Platform:** '' @ platform @ [NL]
     @ asc ''**Username:** '' @ username @ [NL]
     @ [NL]
     @ steps_block @ [NL]
     @ [NL]
     @ asc ''Observed Results:'' @ [NL]
     @ observed @ [NL]
     @ [NL]
     @ asc ''Expected Results:'' @ [NL]
     @ expected @ [NL]"

text \<open>\<open>classify_platform\<close> of \<open>test.py\<close>, whose \<open>GEN5_PLATFORMS\<close> has four names.\<close>

definition GEN5_PLATFORMS_test :: "ustr list" where
  "GEN5_PLATFORMS_test = [asc ''nx2'', asc ''pc'', asc ''xbx'', asc ''ps5'']"

definition classify_platform_test :: "ustr \<Rightarrow> ustr option" where
  "classify_platform_test p =
     (let q = lower p in
      if q \<in> set GEN4_PLATFORMS then Some (asc ''gen4'')
      else if q \<in> set GEN5_PLATFORMS_test then Some (asc ''gen5'')
      else None)"

text \<open>
  The removal of \<open>append_bug_and_move_issue\<close> of \<open>test.py\<close>: as \<open>remove_issue\<close>, and the
  line found by the prefix pattern, stripped, replaces \<open>issue_line\<close>.
\<close>

definition remove_issue_test :: "ustr list \<Rightarrow> nat \<times> nat \<Rightarrow> event \<Rightarrow> error + ustr list \<times> ustr" where
  "remove_issue_test lines ib ev =
     (case scan_lines (\<lambda>l. strip l = issue_line ev) lines [fst ib..<snd ib] of
        Inl e \<Rightarrow> Inl e
      | Inr (Some i) \<Rightarrow> Inr (delete_at i lines, issue_line ev)
      | Inr None \<Rightarrow>
          (case scan_lines (pref_match ev) lines [fst ib..<snd ib] of
             Inl e \<Rightarrow> Inl e
           | Inr (Some i) \<Rightarrow> Inr (delete_at i lines, strip (lines ! i))
           | Inr None \<Rightarrow> Inr (lines, issue_line ev)))"

text \<open>\<open>f"<!-- bug-id:{ev_id}"\<close> and the metadata comment.\<close>

definition bug_marker :: "ustr \<Rightarrow> ustr" where
  "bug_marker ev_id = asc ''<!-- bug-id:'' @ ev_id"

definition bug_meta :: "ustr \<Rightarrow> event \<Rightarrow> ustr \<Rightarrow> ustr" where
  "bug_meta ev_id ev template_key =
     asc ''<!-- bug-id:'' @ ev_id @ asc '' time='' @ ev_time ev @ asc '' platform='' @ ev_platform ev
       @ asc '' template='' @ template_key @ asc '' -->''"

text \<open>
  \<open>append_bug_and_move_issue\<close> of \<open>testv021.py\<close>. \<open>x in text\<close> is \<open>sublist x text\<close>. The
  bounds \<open>ib\<close> and \<open>bb\<close> are those of the lines before the bug is inserted.
\<close>

definition append_bug_and_move_issue ::
    "ustr \<Rightarrow> event \<Rightarrow> ustr \<Rightarrow> ustr \<Rightarrow> ustr list \<Rightarrow> ustr \<Rightarrow> ustr \<Rightarrow> error + ustr" where
  "append_bug_and_move_issue text0 ev summary_prefix steps_mode plain_lines observed expected =
     (let text = find_or_create_sections text0;
          lines = splitlines text;
          ib = section_bounds lines ISSUES_HEADERS;
          rb = section_bounds lines REPORTS_HEADERS;
          bb = section_bounds lines BUGS_HEADERS;
          (text, lines, ib, rb, bb) =
            (if ib = None \<or> rb = None \<or> bb = None then
               (let text = find_or_create_sections text; lines = splitlines text
                in (text, lines, section_bounds lines ISSUES_HEADERS,
                    section_bounds lines REPORTS_HEADERS, section_bounds lines BUGS_HEADERS))
             else (text, lines, ib, rb, bb))
      in case generate_event_id ev of
           Inl e \<Rightarrow> Inl e
         | Inr ev_id \<Rightarrow>
             if sublist (bug_marker ev_id) text then Inr text
             else
               (let template_key = (case classify_platform (ev_platform ev) of
                                      Some k \<Rightarrow> k | None \<Rightarrow> asc ''gen5'');
                    usernames = parse_usernames text;
                    username = (case usernames (ev_platform ev) of Some u \<Rightarrow> u | None \<Rightarrow> []);
                    (g4, g5) = parse_builds text;
                    build_found = (if template_key = asc ''gen4'' then g4 else g5);
                    summary = (if summary_prefix \<noteq> [] then summary_prefix @ asc '': '' @ ev_desc ev
                               else ev_desc ev);
                    steps_block = promoted_steps_block (ev_platform ev) steps_mode plain_lines;
                    bug_block = make_bug_block summary (ev_platform ev) username steps_block
                                  observed expected build_found;
                    meta = bug_meta ev_id ev template_key
                in case bb of
                     None \<Rightarrow> Inl TypeError
                   | Some (bstart, bend) \<Rightarrow>
                       (let lines = insert_lines bend [[], meta, strip bug_block, []] lines in
                        case ib of
                          None \<Rightarrow> Inl TypeError
                        | Some ib \<Rightarrow>
                            (case remove_issue lines ib ev of
                               Inl e \<Rightarrow> Inl e
                             | Inr lines \<Rightarrow>
                                 (case section_bounds lines REPORTS_HEADERS of
                                    None \<Rightarrow> Inl TypeError
                                  | Some (rstart, rend) \<Rightarrow>
                                      Inr (ensure_nl (join_nl (insert_lines rend [issue_line ev] lines))))))))"

text \<open>\<open>append_bug_and_move_issue\<close> of \<open>test.py\<close>.\<close>

definition append_bug_and_move_issue_test ::
    "ustr \<Rightarrow> event \<Rightarrow> ustr \<Rightarrow> ustr \<Rightarrow> ustr list \<Rightarrow> ustr \<Rightarrow> ustr \<Rightarrow> error + ustr" where
  "append_bug_and_move_issue_test text0 ev summary_prefix steps_mode extra_steps observed expected =
     (let text = find_or_create_sections_test text0;
          lines = splitlines text;
          ib = section_bounds lines ISSUES_HEADERS;
          rb = section_bounds lines REPORTS_HEADERS;
          bb = section_bounds lines BUGS_HEADERS;
          (text, lines, ib, rb, bb) =
            (if ib = None \<or> rb = None \<or> bb = None then
               (let text = find_or_create_sections_test text; lines = splitlines text
                in (text, lines, section_bounds lines ISSUES_HEADERS,
                    section_bounds lines REPORTS_HEADERS, section_bounds lines BUGS_HEADERS))
             else (text, lines, ib, rb, bb))
      in case generate_event_id ev of
           Inl e \<Rightarrow> Inl e
         | Inr ev_id \<Rightarrow>
             if sublist (bug_marker ev_id) text then Inr text
             else
               (let template_key = (case classify_platform_test (ev_platform ev) of
                                      Some k \<Rightarrow> k | None \<Rightarrow> asc ''gen5'');
                    usernames = parse_usernames_test text;
                    username = (case usernames (ev_platform ev) of Some u \<Rightarrow> u | None \<Rightarrow> []);
                    summary = (if summary_prefix \<noteq> [] then summary_prefix @ asc '': '' @ ev_desc ev
                               else ev_desc ev);
                    steps_block = build_steps_block template_key steps_mode extra_steps;
                    bug_block = make_bug_block_test summary (ev_platform ev) username steps_block
                                  observed expected;
                    meta = bug_meta ev_id ev template_key
                in case bb of
                     None \<Rightarrow> Inl TypeError
                   | Some (bstart, bend) \<Rightarrow>
                       (let lines = insert_lines bend [[], meta, strip bug_block, []] lines in
                        case ib of
                          None \<Rightarrow> Inl TypeError
                        | Some ib \<Rightarrow>
                            (case remove_issue_test lines ib ev of
                               Inl e \<Rightarrow> Inl e
                             | Inr (lines, line) \<Rightarrow>
                                 (case section_bounds lines REPORTS_HEADERS of
                                    None \<Rightarrow> Inl TypeError
                                  | Some (rstart, rend) \<Rightarrow>
                                      Inr (ensure_nl (join_nl (insert_lines rend [line] lines))))))))"


text \<open>
  The four lines that \<open>append_bug_and_move_issue\<close> puts at the end of Bugs, as the
  code of each version computes them from the scaffolded text: an empty line, the
  metadata comment, the stripped bug block, an empty line.
\<close>

definition promoted_bug_lines ::
    "ustr \<Rightarrow> event \<Rightarrow> ustr \<Rightarrow> ustr \<Rightarrow> ustr \<Rightarrow> ustr list \<Rightarrow> ustr \<Rightarrow> ustr \<Rightarrow> ustr list" where
  "promoted_bug_lines text ev ev_id summary_prefix steps_mode plain_lines observed expected =
     (let template_key = (case classify_platform (ev_platform ev) of Some k \<Rightarrow> k | None \<Rightarrow> asc ''gen5'');
          usernames = parse_usernames text;
          username = (case usernames (ev_platform ev) of Some u \<Rightarrow> u | None \<Rightarrow> []);
          (g4, g5) = parse_builds text;
          build_found = (if template_key = asc ''gen4'' then g4 else g5);
          summary = (if summary_prefix \<noteq> [] then summary_prefix @ asc '': '' @ ev_desc ev else ev_desc ev);
          steps_block = promoted_steps_block (ev_platform ev) steps_mode plain_lines;
          bug_block = make_bug_block summary (ev_platform ev) username steps_block observed expected build_found
      in [[], bug_meta ev_id ev template_key, strip bug_block, []])"

definition promoted_bug_lines_test ::
    "ustr \<Rightarrow> event \<Rightarrow> ustr \<Rightarrow> ustr \<Rightarrow> ustr \<Rightarrow> ustr list \<Rightarrow> ustr \<Rightarrow> ustr \<Rightarrow> ustr list" where
  "promoted_bug_lines_test text ev ev_id summary_prefix steps_mode extra_steps observed expected =
     (let template_key = (case classify_platform_test (ev_platform ev) of Some k \<Rightarrow> k | None \<Rightarrow> asc ''gen5'');
          usernames = parse_usernames_test text;
          username = (case usernames (ev_platform ev) of Some u \<Rightarrow> u | None \<Rightarrow> []);
          summary = (if summary_prefix \<noteq> [] then summary_prefix @ asc '': '' @ ev_desc ev else ev_desc ev);
          steps_block = build_steps_block template_key steps_mode extra_steps;
          bug_block = make_bug_block_test summary (ev_platform ev) username steps_block observed expected
      in [[], bug_meta ev_id ev template_key, strip bug_block, []])"

section \<open>Evaluation rules\<close>

lemma asc_simps: "asc [] = []" "asc (c # cs) = of_char c # asc cs"
  by (simp_all add: asc_def)

section \<open>Lines\<close>

lemma clean_simps [simp]: "clean []" "clean (c # cs) \<longleftrightarrow> \<not> is_linebreak c \<and> clean cs"
  "clean (a @ b) \<longleftrightarrow> clean a \<and> clean b"
  by (auto simp: clean_def)

lemma linebreak_13 [simp]: "is_linebreak 13" "is_linebreak NL"
  by (simp_all add: is_linebreak_def NL_def)

lemma splitlines_from_clean:
  "clean cur \<Longrightarrow> list_all clean (splitlines_from cur s)"
proof (induction s arbitrary: cur rule: length_induct)
  case (1 s)
  show ?case
  proof (cases s)
    case Nil
    then show ?thesis using "1.prems" by simp
  next
    case (Cons c cs)
    show ?thesis
    proof (cases "c = 13 \<and> cs \<noteq> [] \<and> hd cs = 10")
      case True
      then have "length (tl cs) < length s" using Cons by (cases cs) auto
      then have "list_all clean (splitlines_from [] (tl cs))" using 1 by simp
      then show ?thesis using True Cons "1.prems" by simp
    next
      case False
      then show ?thesis using Cons 1 by auto
    qed
  qed
qed

lemma splitlines_clean: "list_all clean (splitlines s)"
  by (simp add: splitlines_def splitlines_from_clean)

lemma splitlines_from_append_clean:
  "clean l \<Longrightarrow> splitlines_from cur (l @ rest) = splitlines_from (cur @ l) rest"
proof (induction l arbitrary: cur)
  case Nil
  then show ?case by simp
next
  case (Cons c l)
  then have "c \<noteq> 13" by auto
  then show ?case using Cons by simp
qed

lemma splitlines_from_NL: "splitlines_from cur (NL # rest) = cur # splitlines_from [] rest"
  by (simp add: NL_def is_linebreak_def)

lemma splitlines_from_line:
  "clean l \<Longrightarrow> splitlines_from cur (l @ NL # rest) = (cur @ l) # splitlines_from [] rest"
  by (simp add: splitlines_from_append_clean splitlines_from_NL del: splitlines_from.simps)

lemma splitlines_from_last:
  "clean l \<Longrightarrow> splitlines_from cur l = (if cur @ l = [] then [] else [cur @ l])"
  using splitlines_from_append_clean [of l cur "[]"] by simp

lemma splitlines_join_nl:
  "list_all clean ls \<Longrightarrow>
   splitlines (join_nl ls) = (if ls \<noteq> [] \<and> last ls = [] then butlast ls else ls)"
proof (induction ls rule: join_nl.induct)
  case 1
  then show ?case by (simp add: splitlines_def)
next
  case (2 l)
  then show ?case by (simp add: splitlines_def splitlines_from_last del: splitlines_from.simps)
next
  case (3 l m ls)
  have "splitlines (join_nl (l # m # ls)) = l # splitlines (join_nl (m # ls))"
    using 3(2) splitlines_from_line [of l "[]" "join_nl (m # ls)"] by (simp add: splitlines_def)
  then show ?case using 3 by simp
qed

lemma join_nl_snoc: "ls \<noteq> [] \<Longrightarrow> join_nl (ls @ [l]) = join_nl ls @ NL # l"
  by (induction ls rule: join_nl.induct) simp_all

lemma splitlines_join_nl_NL:
  assumes "list_all clean ls" "ls \<noteq> []"
  shows "splitlines (join_nl ls @ [NL]) = ls"
proof -
  have "join_nl ls @ [NL] = join_nl (ls @ [[]])" using assms(2) by (simp add: join_nl_snoc)
  moreover have "list_all clean (ls @ [[]])" using assms(1) by simp
  ultimately show ?thesis using splitlines_join_nl [of "ls @ [[]]"] by simp
qed

lemma endswith_nl_join:
  "list_all clean ls \<Longrightarrow> endswith_nl (join_nl ls) \<longleftrightarrow> (length ls \<ge> 2 \<and> last ls = [])"
proof (induction ls rule: join_nl.induct)
  case 1
  then show ?case by (simp add: endswith_nl_def)
next
  case (2 l)
  then show ?case by (cases l rule: rev_cases) (auto simp: endswith_nl_def)
next
  case (3 l m ls)
  then show ?case by (cases ls) (auto simp: endswith_nl_def)
qed

lemma splitlines_ensure_nl_join:
  assumes "list_all clean ls" "ls \<noteq> []"
  shows "splitlines (ensure_nl (join_nl ls)) = drop_last_blank ls"
proof (cases "length ls \<ge> 2 \<and> last ls = []")
  case True
  then show ?thesis using assms
    by (simp add: ensure_nl_def endswith_nl_join splitlines_join_nl drop_last_blank_def)
next
  case False
  then have "\<not> endswith_nl (join_nl ls)" using assms by (simp add: endswith_nl_join)
  then have "ensure_nl (join_nl ls) = join_nl ls @ [NL]" by (simp add: ensure_nl_def)
  moreover have "drop_last_blank ls = ls" using False by (auto simp: drop_last_blank_def)
  ultimately show ?thesis using assms by (simp add: splitlines_join_nl_NL)
qed

section \<open>The steps block\<close>

lemma nonblank_simps:
  "nonblank [] = []"
  "nonblank (l # ls) = (if strip l \<noteq> [] then strip l # nonblank ls else nonblank ls)"
  by (simp_all add: nonblank_def)

lemma number_steps_numbered:
  "number_steps ls (out, n) = (out @ numbered n (nonblank ls), n + length (nonblank ls))"
  by (induction ls arbitrary: out n) (simp_all add: nonblank_simps)

text \<open>
  \<open>build_steps_block\<close> of \<open>test.py\<close> renders what the specification describes: in
  default mode the two fixed steps, then the extra lines from 3, or the placeholder.
\<close>

lemma build_steps_block_default:
  "build_steps_block template_key (asc ''default'') extra_lines =
     join_nl ([asc ''Steps to Reproduce:'', asc ''1. '' @ STEP1, asc ''2. '' @ base2 template_key] @
       (if nonblank extra_lines = [] then [asc ''3. ''] else numbered 3 (nonblank extra_lines)))"
  by (simp add: build_steps_block_def number_steps_numbered)

lemma build_steps_block_custom:
  "mode \<noteq> asc ''default'' \<Longrightarrow> build_steps_block template_key mode extra_lines =
     join_nl (asc ''Steps to Reproduce:'' #
       (if nonblank extra_lines = [] then [asc ''1. ''] else numbered 1 (nonblank extra_lines)))"
  by (simp add: build_steps_block_def number_steps_numbered)

text \<open>
  Claim C3. In default mode the steps block of a promoted issue is the two fixed
  steps followed by the extra lines numbered from 3, or by the placeholder \<open>3. \<close>
  when there are none. \<open>append_bug_and_move_issue\<close> of \<open>testv021.py\<close> does not
  produce it: promoting a \<open>ps5\<close> issue in default mode with no extra lines gives a
  block whose steps 3 and 4 repeat the two fixed steps, and no placeholder.
\<close>

theorem promoted_steps_block_default_repeats_fixed_steps:
  "promoted_steps_block (asc ''ps5'') (asc ''default'') [] =
     join_nl [asc ''Steps to Reproduce:'',
       asc ''1. Launch the title > create or select build / save.'',
       asc ''2. Enter the City.'',
       asc ''3. Launch the title > create or select build / save.'',
       asc ''4. Enter the City.'']"
  by (simp add: promoted_steps_block_def build_steps_block_numbered_def
      default_plain_steps_lines_def classify_platform_def GEN4_PLATFORMS_def GEN5_PLATFORMS_def
      lower_def lower_char_def asc_simps base2_def STEP1_def strip_def is_space_def NL_def
      str_nat.simps [of 3] str_nat.simps [of 4])

section \<open>Sections and the scaffolder\<close>

lemmas eval_simps = asc_simps NL_def is_space_def is_linebreak_def strip_def
  fold_case_def lit_match_def is_header_def
  BUGS_HEADERS_def REPORTS_HEADERS_def ISSUES_HEADERS_def FOUND_HEADERS_def ANY_HEADER_def
  BUG_GLYPH_def MEMO_GLYPH_def DETECTIVE_GLYPH_def DIVIDERS_GLYPH_def
  ISSUES_TITLE_def FOUND_TITLE_def REPORTS_TITLE_def BUGS_TITLE_def

lemma titles_are_headers:
  "is_header ISSUES_HEADERS ISSUES_TITLE" "is_header FOUND_HEADERS FOUND_TITLE"
  "is_header REPORTS_HEADERS REPORTS_TITLE" "is_header BUGS_HEADERS BUGS_TITLE"
  by (simp_all add: eval_simps)

lemma titles_clean:
  "clean ISSUES_TITLE" "clean FOUND_TITLE" "clean REPORTS_TITLE" "clean BUGS_TITLE" "clean (asc ''---'')"
  by (simp_all add: eval_simps)

lemma blank_not_header:
  "\<not> is_header ISSUES_HEADERS []" "\<not> is_header FOUND_HEADERS []"
  "\<not> is_header REPORTS_HEADERS []" "\<not> is_header BUGS_HEADERS []"
  by (simp_all add: eval_simps)

lemma find_section_start_None:
  "find_section_start lines pats = None \<longleftrightarrow> \<not> has_section pats lines"
  by (induction lines) (auto simp: has_section_def)

lemma section_bounds_None:
  "section_bounds lines pats = None \<longleftrightarrow> \<not> has_section pats lines"
  by (simp add: section_bounds_def find_section_start_None [symmetric] Let_def split: option.splits)

lemma has_section_insert_lines:
  "has_section pats (insert_lines k block lines) \<longleftrightarrow> has_section pats lines \<or> has_section pats block"
proof -
  have "set (take k lines) \<union> set (drop k lines) = set lines"
    by (metis append_take_drop_id set_append)
  then show ?thesis by (auto simp: has_section_def insert_lines_def list_ex_iff)
qed

lemma list_all_insert_lines:
  "list_all P (insert_lines k block lines) \<longleftrightarrow> list_all P lines \<and> list_all P block"
proof -
  have "set (take k lines) \<union> set (drop k lines) = set lines"
    by (metis append_take_drop_id set_append)
  then show ?thesis by (auto simp: insert_lines_def list_all_iff)
qed

lemma has_section_drop_last_blank:
  "\<not> is_header pats [] \<Longrightarrow> has_section pats (drop_last_blank lines) \<longleftrightarrow> has_section pats lines"
proof (cases "length lines \<ge> 2 \<and> last lines = []")
  case True
  then have "lines = butlast lines @ [[]]" by (metis append_butlast_last_id length_0_conv not_numeral_le_zero)
  then have "set lines = set (butlast lines) \<union> {[]}"
    by (metis set_append list.set(1) list.set(2))
  then have "has_section pats lines \<longleftrightarrow> has_section pats (butlast lines) \<or> is_header pats []"
    by (auto simp: has_section_def list_ex_iff)
  moreover assume "\<not> is_header pats []"
  ultimately show ?thesis using True by (simp add: drop_last_blank_def)
next
  case False
  then show ?thesis by (auto simp: drop_last_blank_def)
qed


lemma has_section_simps:
  "has_section pats [] = False"
  "has_section pats (l # ls) = (is_header pats l \<or> has_section pats ls)"
  by (simp_all add: has_section_def)

lemma create_issues_has: "has_section ISSUES_HEADERS (fst (create_issues st))"
  by (cases st) (auto simp: create_issues_def section_bounds_None has_section_insert_lines Let_def
      has_section_simps titles_are_headers)

lemma create_after_has: "is_header pats title \<Longrightarrow> has_section pats (fst (create_after pats prev title st))"
  by (cases st) (auto simp: create_after_def section_bounds_None has_section_insert_lines Let_def
      has_section_simps)

lemma create_issues_keeps: "has_section P (fst st) \<Longrightarrow> has_section P (fst (create_issues st))"
  by (cases st) (auto simp: create_issues_def has_section_insert_lines Let_def)

lemma create_after_keeps: "has_section P (fst st) \<Longrightarrow> has_section P (fst (create_after pats prev title st))"
  by (cases st) (auto simp: create_after_def has_section_insert_lines Let_def)

lemma create_issues_clean: "list_all clean (fst st) \<Longrightarrow> list_all clean (fst (create_issues st))"
  by (cases st) (auto simp: create_issues_def list_all_insert_lines Let_def titles_clean)

lemma create_after_clean:
  "clean title \<Longrightarrow> list_all clean (fst st) \<Longrightarrow> list_all clean (fst (create_after pats prev title st))"
  by (cases st) (auto simp: create_after_def list_all_insert_lines Let_def titles_clean)

lemma create_issues_id: "has_section ISSUES_HEADERS (fst st) \<Longrightarrow> create_issues st = st"
  by (cases st) (auto simp: create_issues_def section_bounds_None)

lemma create_after_id: "has_section pats (fst st) \<Longrightarrow> create_after pats prev title st = st"
  by (cases st) (auto simp: create_after_def section_bounds_None)

lemma create_issues_unchanged: "\<not> snd (create_issues st) \<Longrightarrow> create_issues st = st"
  by (cases st) (auto simp: create_issues_def Let_def split: if_splits)

lemma create_after_unchanged: "\<not> snd (create_after pats prev title st) \<Longrightarrow> create_after pats prev title st = st"
  by (cases st) (auto simp: create_after_def Let_def split: if_splits)


lemma find_or_create_sections_present:
  "all_sections (splitlines d) \<Longrightarrow> find_or_create_sections d = d"
  by (simp add: find_or_create_sections_def all_sections_def create_issues_id create_after_id)

lemma find_or_create_sections_cases:
  obtains (same) "find_or_create_sections d = d" "all_sections (splitlines d)"
  | (changed) L where "find_or_create_sections d = ensure_nl (join_nl L)" "list_all clean L" "all_sections L"
proof -
  define s0 where "s0 = (splitlines d, False)"
  define s1 where "s1 = create_issues s0"
  define s2 where "s2 = create_after FOUND_HEADERS ISSUES_HEADERS FOUND_TITLE s1"
  define s3 where "s3 = create_after REPORTS_HEADERS FOUND_HEADERS REPORTS_TITLE s2"
  define s4 where "s4 = create_after BUGS_HEADERS REPORTS_HEADERS BUGS_TITLE s3"
  have focs: "find_or_create_sections d = (if snd s4 then ensure_nl (join_nl (fst s4)) else d)"
    by (simp add: find_or_create_sections_def s0_def s1_def s2_def s3_def s4_def Let_def split: prod.splits)
  have c0: "list_all clean (fst s0)" by (simp add: s0_def splitlines_clean)
  have c4: "list_all clean (fst s4)"
    unfolding s4_def s3_def s2_def s1_def
    by (intro create_after_clean create_issues_clean titles_clean c0)
  have h1: "has_section ISSUES_HEADERS (fst s1)" by (simp add: s1_def create_issues_has)
  have h2: "has_section FOUND_HEADERS (fst s2)" by (simp add: s2_def create_after_has titles_are_headers)
  have h3: "has_section REPORTS_HEADERS (fst s3)" by (simp add: s3_def create_after_has titles_are_headers)
  have h4: "has_section BUGS_HEADERS (fst s4)" by (simp add: s4_def create_after_has titles_are_headers)
  have all4: "all_sections (fst s4)"
    unfolding all_sections_def using h1 h2 h3 h4
    by (simp add: s4_def s3_def s2_def create_after_keeps)
  show ?thesis
  proof (cases "snd s4")
    case True
    then show ?thesis using focs c4 all4 changed by simp
  next
    case False
    then have e4: "s4 = s3" unfolding s4_def by (rule create_after_unchanged)
    with False have "\<not> snd s3" by simp
    then have e3: "s3 = s2" unfolding s3_def by (rule create_after_unchanged)
    with \<open>\<not> snd s3\<close> have "\<not> snd s2" by simp
    then have e2: "s2 = s1" unfolding s2_def by (rule create_after_unchanged)
    with \<open>\<not> snd s2\<close> have "\<not> snd s1" by simp
    then have e1: "s1 = s0" unfolding s1_def by (rule create_issues_unchanged)
    have "fst s4 = splitlines d" by (simp add: e4 e3 e2 e1 s0_def)
    then show ?thesis using focs all4 False same by simp
  qed
qed

lemma all_sections_nonempty: "all_sections L \<Longrightarrow> L \<noteq> []"
  by (auto simp: all_sections_def has_section_simps)

lemma all_sections_drop_last_blank: "all_sections (drop_last_blank L) \<longleftrightarrow> all_sections L"
  by (simp add: all_sections_def has_section_drop_last_blank blank_not_header)

lemma all_sections_scaffolded: "all_sections (splitlines (find_or_create_sections d))"
proof (cases d rule: find_or_create_sections_cases)
  case same
  then show ?thesis by simp
next
  case (changed L)
  then show ?thesis
    by (simp add: splitlines_ensure_nl_join all_sections_nonempty all_sections_drop_last_blank)
qed

lemma find_or_create_sections_test_present:
  "all_sections_test (splitlines d) \<Longrightarrow> find_or_create_sections_test d = d"
  by (simp add: find_or_create_sections_test_def all_sections_test_def create_issues_id create_after_id)

lemma find_or_create_sections_test_cases:
  obtains (same) "find_or_create_sections_test d = d" "all_sections_test (splitlines d)"
  | (changed) L where "find_or_create_sections_test d = ensure_nl (join_nl L)" "list_all clean L"
      "all_sections_test L"
proof -
  define s0 where "s0 = (splitlines d, False)"
  define s1 where "s1 = create_issues s0"
  define s3 where "s3 = create_after REPORTS_HEADERS ISSUES_HEADERS REPORTS_TITLE s1"
  define s4 where "s4 = create_after BUGS_HEADERS REPORTS_HEADERS BUGS_TITLE s3"
  have focs: "find_or_create_sections_test d = (if snd s4 then ensure_nl (join_nl (fst s4)) else d)"
    by (simp add: find_or_create_sections_test_def s0_def s1_def s3_def s4_def Let_def split: prod.splits)
  have c0: "list_all clean (fst s0)" by (simp add: s0_def splitlines_clean)
  have c4: "list_all clean (fst s4)"
    unfolding s4_def s3_def s1_def
    by (intro create_after_clean create_issues_clean titles_clean c0)
  have h1: "has_section ISSUES_HEADERS (fst s1)" by (simp add: s1_def create_issues_has)
  have h3: "has_section REPORTS_HEADERS (fst s3)" by (simp add: s3_def create_after_has titles_are_headers)
  have h4: "has_section BUGS_HEADERS (fst s4)" by (simp add: s4_def create_after_has titles_are_headers)
  have all4: "all_sections_test (fst s4)"
    unfolding all_sections_test_def using h1 h3 h4
    by (simp add: s4_def s3_def create_after_keeps)
  show ?thesis
  proof (cases "snd s4")
    case True
    then show ?thesis using focs c4 all4 changed by simp
  next
    case False
    then have e4: "s4 = s3" unfolding s4_def by (rule create_after_unchanged)
    with False have "\<not> snd s3" by simp
    then have e3: "s3 = s1" unfolding s3_def by (rule create_after_unchanged)
    with \<open>\<not> snd s3\<close> have "\<not> snd s1" by simp
    then have e1: "s1 = s0" unfolding s1_def by (rule create_issues_unchanged)
    have "fst s4 = splitlines d" by (simp add: e4 e3 e1 s0_def)
    then show ?thesis using focs all4 False same by simp
  qed
qed

lemma all_sections_test_scaffolded: "all_sections_test (splitlines (find_or_create_sections_test d))"
proof (cases d rule: find_or_create_sections_test_cases)
  case same
  then show ?thesis by simp
next
  case (changed L)
  moreover from changed have "L \<noteq> []" by (auto simp: all_sections_test_def has_section_simps)
  moreover have "all_sections_test (drop_last_blank L) \<longleftrightarrow> all_sections_test L"
    by (simp add: all_sections_test_def has_section_drop_last_blank blank_not_header)
  ultimately show ?thesis
    by (simp add: splitlines_ensure_nl_join)
qed

lemma splitlines_doc4: "splitlines doc4 = [asc ''# issues found'', asc ''# found'', asc ''# reports written'', asc ''# bugs'']"
  by (simp add: doc4_def splitlines_def eval_simps)

lemma all_sections_doc4: "all_sections (splitlines doc4)" "all_sections_test (splitlines doc4)"
  by (simp_all add: splitlines_doc4 all_sections_def all_sections_test_def has_section_simps eval_simps)

lemmas run_simps = eval_simps splitlines_def section_bounds_def insert_lines_def header_end_def startswith_def
  create_issues_def create_after_def find_or_create_sections_def endswith_nl_def ensure_nl_def

lemma find_or_create_sections_empty: "find_or_create_sections [] =
  join_nl [ISSUES_TITLE, asc ''---'', [], FOUND_TITLE, asc ''---'', [],
     REPORTS_TITLE, asc ''---'', [], BUGS_TITLE, asc ''---'', []]"
  by (simp add: run_simps)

text \<open>
  Claim C5. The scaffolder is idempotent, and it returns its argument itself when no
  canonical section is missing. Both hold for \<open>find_or_create_sections\<close> of
  \<open>testv021.py\<close> (four sections) and of \<open>test.py\<close> (three sections).
\<close>

theorem find_or_create_sections_idempotent:
  "find_or_create_sections (find_or_create_sections d) = find_or_create_sections d \<and>
   (all_sections (splitlines d) \<longrightarrow> find_or_create_sections d = d) \<and>
   find_or_create_sections_test (find_or_create_sections_test d) = find_or_create_sections_test d \<and>
   (all_sections_test (splitlines d) \<longrightarrow> find_or_create_sections_test d = d)"
  by (simp add: find_or_create_sections_present all_sections_scaffolded
      find_or_create_sections_test_present all_sections_test_scaffolded)

theorem find_or_create_sections_idempotent_witness:
  "all_sections (splitlines doc4) \<and> all_sections_test (splitlines doc4) \<and>
   find_or_create_sections (find_or_create_sections doc4) = find_or_create_sections doc4 \<and>
   find_or_create_sections doc4 = doc4 \<and>
   find_or_create_sections_test (find_or_create_sections_test doc4) = find_or_create_sections_test doc4 \<and>
   find_or_create_sections_test doc4 = doc4"
  using find_or_create_sections_idempotent [of doc4] all_sections_doc4 by simp

section \<open>The shape of a section\<close>

lemma any_header_iff: "any_header l \<longleftrightarrow> (\<exists>c r. l = 35 # c # r \<and> is_space c)"
proof (cases l)
  case Nil
  then show ?thesis by (simp add: any_header_def ANY_HEADER_def lit_match_def asc_simps)
next
  case (Cons a r)
  then show ?thesis
    by (cases r) (auto simp: any_header_def ANY_HEADER_def lit_match_def asc_simps)
qed

lemma not_space_35 [simp]: "\<not> is_space 35" "\<not> is_space 45"
  by (simp_all add: is_space_def)

lemma strip_Cons_nonspace: "\<not> is_space c \<Longrightarrow> \<exists>r. strip (c # cs) = c # r"
proof -
  assume c: "\<not> is_space c"
  have "\<exists>ys. dropWhile is_space (rev cs @ [c]) = ys @ [c]"
    using c by (simp add: dropWhile_append)
  then obtain ys where "dropWhile is_space (rev cs @ [c]) = ys @ [c]" by blast
  then have "strip (c # cs) = c # rev ys" using c by (simp add: strip_def)
  then show ?thesis by blast
qed

lemma any_header_not_divider: "any_header l \<Longrightarrow> \<not> is_divider l"
proof -
  assume "any_header l"
  then obtain c r where l: "l = 35 # c # r" by (auto simp: any_header_iff)
  obtain r' where "strip l = 35 # r'" using strip_Cons_nonspace [of 35 "c # r"] l by auto
  then show ?thesis by (simp add: is_divider_def asc_simps)
qed

lemma find_section_start_at:
  "\<not> has_section pats A \<Longrightarrow> is_header pats h \<Longrightarrow> find_section_start (A @ h # B) pats = Some (length A)"
  by (induction A) (simp_all add: has_section_simps)

lemma find_section_start_Some:
  "find_section_start L pats = Some i \<Longrightarrow>
   i < length L \<and> is_header pats (L ! i) \<and> \<not> has_section pats (take i L)"
proof (induction L arbitrary: i)
  case Nil
  then show ?case by simp
next
  case (Cons l L)
  show ?case
  proof (cases "is_header pats l")
    case True
    then show ?thesis using Cons.prems by (simp add: has_section_simps)
  next
    case False
    then obtain j where j: "find_section_start L pats = Some j" "i = Suc j"
      using Cons.prems by auto
    then show ?thesis using Cons.IH [OF j(1)] False by (simp add: has_section_simps)
  qed
qed

lemma next_header_takeWhile:
  "next_header R j = j + length (takeWhile (\<lambda>l. \<not> any_header l) R)"
  by (induction R arbitrary: j) (simp_all add: any_header_def)

lemma section_bounds_eq:
  "section_bounds L pats =
     (case find_section_start L pats of None \<Rightarrow> None
      | Some h \<Rightarrow>
          (let s = (if h + 1 < length L \<and> is_divider (L ! (h + 1)) then h + 2 else h + 1)
           in Some (s, s + length (takeWhile (\<lambda>l. \<not> any_header l) (drop s L)))))"
  by (simp add: section_bounds_def next_header_takeWhile is_divider_def Let_def split: option.splits)

lemma takeWhile_stop:
  "list_all P C \<Longrightarrow> D = [] \<or> \<not> P (hd D) \<Longrightarrow> takeWhile P (C @ D) = C"
  by (induction C) (auto simp: neq_Nil_conv takeWhile_eq_Nil_iff)

lemma section_bounds_shape:
  assumes "\<not> has_section pats A" "is_header pats h"
    "list_all (\<lambda>l. \<not> any_header l) C" "D = [] \<or> any_header (hd D)"
  shows "section_bounds (A @ h # C @ D) pats =
     Some (length A + 1 + (if C \<noteq> [] \<and> is_divider (hd C) then 1 else 0), length A + 1 + length C)"
proof -
  define L where "L = A @ h # C @ D"
  define b where "b \<longleftrightarrow> C \<noteq> [] \<and> is_divider (hd C)"
  have h: "find_section_start L pats = Some (length A)"
    unfolding L_def using assms(1,2) by (rule find_section_start_at)
  have div: "length A + 1 < length L \<and> is_divider (L ! (length A + 1)) \<longleftrightarrow> b"
  proof (cases C)
    case Nil
    then show ?thesis using assms(4) any_header_not_divider [of "hd D"]
      by (cases D) (auto simp: nth_append L_def b_def)
  next
    case (Cons c C')
    then show ?thesis by (simp add: nth_append L_def b_def)
  qed
  have sb: "section_bounds L pats =
    (let s = (if b then length A + 2 else length A + 1)
     in Some (s, s + length (takeWhile (\<lambda>l. \<not> any_header l) (drop s L))))"
    unfolding section_bounds_eq h using div by simp
  show ?thesis
  proof (cases b)
    case True
    then obtain c C' where C: "C = c # C'" by (cases C) (auto simp: b_def)
    have d: "drop (length A + 2) L = C' @ D" by (simp add: C L_def)
    have "takeWhile (\<lambda>l. \<not> any_header l) (C' @ D) = C'"
      using assms(3,4) C by (intro takeWhile_stop) auto
    then show ?thesis unfolding L_def [symmetric] sb using True d C by (simp add: b_def)
  next
    case False
    have d: "drop (length A + 1) L = C @ D" by (simp add: L_def)
    have "takeWhile (\<lambda>l. \<not> any_header l) (C @ D) = C"
      using assms(3,4) by (intro takeWhile_stop) auto
    then show ?thesis unfolding L_def [symmetric] sb using False d by (auto simp: b_def)
  qed
qed

lemma section_bounds_decomp:
  assumes "section_bounds L pats = Some (s, e)"
  obtains A h C D where "L = A @ h # C @ D" "\<not> has_section pats A" "is_header pats h"
    "list_all (\<lambda>l. \<not> any_header l) C" "D = [] \<or> any_header (hd D)"
    "s = length A + 1 + (if C \<noteq> [] \<and> is_divider (hd C) then 1 else 0)" "e = length A + 1 + length C"
proof -
  from assms obtain i where i: "find_section_start L pats = Some i"
    by (auto simp: section_bounds_eq split: option.splits)
  note fs = find_section_start_Some [OF i]
  define R where "R = drop (Suc i) L"
  define C where "C = takeWhile (\<lambda>l. \<not> any_header l) R"
  define D where "D = dropWhile (\<lambda>l. \<not> any_header l) R"
  have L: "L = take i L @ (L ! i) # C @ D"
    using fs by (simp add: C_def D_def R_def id_take_nth_drop [symmetric])
  have 1: "\<not> has_section pats (take i L)" using fs by simp
  have 2: "is_header pats (L ! i)" using fs by simp
  have 3: "list_all (\<lambda>l. \<not> any_header l) C"
    by (auto simp: C_def list_all_iff dest: set_takeWhileD)
  have 4: "D = [] \<or> any_header (hd D)"
    using hd_dropWhile [of "\<lambda>l. \<not> any_header l" R] by (auto simp: D_def)
  have len: "length (take i L) = i" using fs by simp
  have "section_bounds L pats =
     Some (i + 1 + (if C \<noteq> [] \<and> is_divider (hd C) then 1 else 0), i + 1 + length C)"
    using section_bounds_shape [OF 1 2 3 4] L len by simp
  with assms have "s = length (take i L) + 1 + (if C \<noteq> [] \<and> is_divider (hd C) then 1 else 0)"
    "e = length (take i L) + 1 + length C" using len by auto
  with L 1 2 3 4 show ?thesis by (rule that)
qed

section \<open>Removing an issue\<close>

lemma scan_lines_find:
  "list_all (\<lambda>i. i < length lines) idxs \<Longrightarrow>
   scan_lines P lines idxs = Inr (find (\<lambda>i. P (lines ! i)) idxs)"
  by (induction idxs) auto

lemma section_bounds_le:
  assumes "section_bounds L pats = Some (s, e)"
  shows "s \<le> e" "e \<le> length L"
proof -
  from assms obtain A h C D where d: "L = A @ h # C @ D"
    "s = length A + 1 + (if C \<noteq> [] \<and> is_divider (hd C) then 1 else 0)" "e = length A + 1 + length C"
    by (rule section_bounds_decomp)
  show "s \<le> e" using d(2,3) by (cases C) auto
  show "e \<le> length L" using d(1,3) by simp
qed

lemma scan_lines_range:
  "e \<le> length lines \<Longrightarrow> scan_lines P lines [s..<e] = Inr (find (\<lambda>i. P (lines ! i)) [s..<e])"
  by (rule scan_lines_find) (simp add: list_all_iff)

lemma find_range_None:
  "find (\<lambda>i. P (lines ! i)) [s..<e] = None \<longleftrightarrow> \<not> list_ex P (take (e - s) (drop s lines))" if "e \<le> length lines"
proof -
  have "set (take (e - s) (drop s lines)) = {lines ! i | i. s \<le> i \<and> i < e}"
  proof (intro set_eqI iffI)
    fix x assume "x \<in> set (take (e - s) (drop s lines))"
    then obtain j where "j < length (take (e - s) (drop s lines))" "x = take (e - s) (drop s lines) ! j"
      by (auto simp: in_set_conv_nth)
    then have "x = lines ! (s + j)" "s + j < e" using that by auto
    then show "x \<in> {lines ! i | i. s \<le> i \<and> i < e}" by force
  next
    fix x assume "x \<in> {lines ! i | i. s \<le> i \<and> i < e}"
    then obtain i where i: "x = lines ! i" "s \<le> i" "i < e" by auto
    then have "i - s < length (take (e - s) (drop s lines))" using that by auto
    moreover have "take (e - s) (drop s lines) ! (i - s) = x" using i that by auto
    ultimately show "x \<in> set (take (e - s) (drop s lines))" by (metis nth_mem)
  qed
  then show ?thesis by (auto simp: find_None_iff list_ex_iff)
qed

lemma find_range_Some:
  "find Q [s..<e] = Some i \<Longrightarrow> s \<le> i \<and> i < e \<and> Q i"
  by (auto simp: find_Some_iff)

lemma remove_issue_cases [consumes 1, case_names same removed]:
  assumes "section_bounds lines ISSUES_HEADERS = Some ib"
  obtains (same) "remove_issue lines ib ev = Inr lines"
      "\<not> list_ex (issue_match ev) (section_lines ISSUES_HEADERS lines)"
  | (removed) i where "remove_issue lines ib ev = Inr (delete_at i lines)"
      "fst ib \<le> i" "i < snd ib" "issue_match ev (lines ! i)"
proof -
  obtain s e where ib: "ib = (s, e)" by (cases ib)
  have le: "e \<le> length lines" using assms ib section_bounds_le by simp
  have sl: "section_lines ISSUES_HEADERS lines = take (e - s) (drop s lines)"
    using assms ib by (simp add: section_lines_def)
  show ?thesis
  proof (cases "find (\<lambda>i. strip (lines ! i) = issue_line ev) [s..<e]")
    case (Some i)
    then have "remove_issue lines ib ev = Inr (delete_at i lines)"
      by (simp add: remove_issue_def ib scan_lines_range le)
    moreover from Some have "s \<le> i \<and> i < e \<and> strip (lines ! i) = issue_line ev"
      by (rule find_range_Some)
    ultimately show ?thesis using removed ib by (simp add: issue_match_def)
  next
    case None
    note n1 = this
    show ?thesis
    proof (cases "find (\<lambda>i. pref_match ev (lines ! i)) [s..<e]")
      case (Some i)
      then have "remove_issue lines ib ev = Inr (delete_at i lines)"
        using n1 by (simp add: remove_issue_def ib scan_lines_range le)
      moreover from Some have "s \<le> i \<and> i < e \<and> pref_match ev (lines ! i)"
        by (rule find_range_Some)
      ultimately show ?thesis using removed ib by (simp add: issue_match_def)
    next
      case None
      then have "remove_issue lines ib ev = Inr lines"
        using n1 by (simp add: remove_issue_def ib scan_lines_range le)
      moreover have "\<not> list_ex (issue_match ev) (section_lines ISSUES_HEADERS lines)"
        using n1 None find_range_None [OF le, of "\<lambda>l. strip l = issue_line ev" s]
          find_range_None [OF le, of "pref_match ev" s]
        by (auto simp: sl issue_match_def list_ex_iff)
      ultimately show ?thesis using same by simp
    qed
  qed
qed

lemma remove_issue_no_match:
  assumes "section_bounds lines ISSUES_HEADERS = Some ib"
    "\<not> list_ex (issue_match ev) (section_lines ISSUES_HEADERS lines)"
  shows "remove_issue lines ib ev = Inr lines"
  using assms(1)
proof (cases rule: remove_issue_cases [where ev = ev])
  case same
  then show ?thesis by simp
next
  case (removed i)
  obtain s e where ib: "ib = (s, e)" by (cases ib)
  have le: "e \<le> length lines" using assms ib section_bounds_le by simp
  have "lines ! i \<in> set (take (e - s) (drop s lines))"
  proof -
    have "i - s < length (take (e - s) (drop s lines))" using removed ib le by auto
    moreover have "take (e - s) (drop s lines) ! (i - s) = lines ! i" using removed ib le by auto
    ultimately show ?thesis by (metis nth_mem)
  qed
  then show ?thesis using assms removed(4) ib by (auto simp: section_lines_def list_ex_iff)
qed

lemma join_nl_NL_normal:
  assumes "list_all clean ls" "ls \<noteq> []" "last ls \<noteq> []"
  shows "splitlines (join_nl ls @ [NL]) = ls" "ensure_nl (join_nl ls) = join_nl ls @ [NL]"
proof -
  show "splitlines (join_nl ls @ [NL]) = ls" using assms by (simp add: splitlines_join_nl_NL)
  have "\<not> endswith_nl (join_nl ls)" using assms by (simp add: endswith_nl_join)
  then show "ensure_nl (join_nl ls) = join_nl ls @ [NL]" by (simp add: ensure_nl_def)
qed

lemmas op_simps = section_lines_def section_bounds_def issue_match_def issue_line_def pref_match_def
  ev0_def remove_issue_def delete_at_def insert_lines_def ensure_nl_def endswith_nl_def

lemma doc_issue_lines_ok: "list_all clean doc_issue_lines" "doc_issue_lines \<noteq> []" "last doc_issue_lines \<noteq> []"
  by (simp_all add: doc_issue_lines_def eval_simps)

lemma splitlines_doc_issue: "splitlines doc_issue = doc_issue_lines"
  unfolding doc_issue_def using doc_issue_lines_ok by (simp add: splitlines_join_nl_NL)

lemma doc_issue_no_match:
  "\<not> list_ex (issue_match ev0) (section_lines ISSUES_HEADERS (splitlines doc_issue))"
  unfolding splitlines_doc_issue by (simp add: doc_issue_lines_def op_simps eval_simps)

text \<open>
  Claim C8, amended. \<open>delete_issue_line\<close> never raises. When no line of Issues Found
  matches the issue (neither the exact text nor the prefix), it returns the lines of
  the input joined by newlines and newline-terminated (the input itself when there
  is no Issues Found section); this is the input itself when the input is a sequence
  of lines each ended by a newline, the last of them not empty. As stated the claim
  fails: a text without a final newline gains one.
\<close>

theorem delete_issue_line_no_match:
  "(\<exists>out. delete_issue_line text ev = Inr out) \<and>
   (\<not> list_ex (issue_match ev) (section_lines ISSUES_HEADERS (splitlines text)) \<longrightarrow>
      delete_issue_line text ev =
        Inr (if has_section ISSUES_HEADERS (splitlines text) then ensure_nl (join_nl (splitlines text))
             else text)) \<and>
   (\<not> list_ex (issue_match ev) (section_lines ISSUES_HEADERS (splitlines text)) \<and>
    list_all clean ls \<and> ls \<noteq> [] \<and> last ls \<noteq> [] \<and> text = join_nl ls @ [NL] \<longrightarrow>
      delete_issue_line text ev = Inr text)"
proof (cases "section_bounds (splitlines text) ISSUES_HEADERS")
  case None
  then have nohas: "\<not> has_section ISSUES_HEADERS (splitlines text)" by (simp add: section_bounds_None)
  have d: "delete_issue_line text ev = Inr text" using None by (simp add: delete_issue_line_def)
  show ?thesis unfolding d using nohas by simp
next
  case (Some ib)
  then have has: "has_section ISSUES_HEADERS (splitlines text)"
    using section_bounds_None [of "splitlines text" ISSUES_HEADERS] by simp
  have 1: "\<exists>out. delete_issue_line text ev = Inr out"
    using Some by (cases rule: remove_issue_cases [where ev = ev]) (simp_all add: delete_issue_line_def Some)
  have 2: "delete_issue_line text ev = Inr (ensure_nl (join_nl (splitlines text)))"
    if "\<not> list_ex (issue_match ev) (section_lines ISSUES_HEADERS (splitlines text))"
    using remove_issue_no_match [OF Some that] by (simp add: delete_issue_line_def Some)
  have 3: "ensure_nl (join_nl (splitlines text)) = text"
    if "list_all clean ls" "ls \<noteq> []" "last ls \<noteq> []" "text = join_nl ls @ [NL]"
    using join_nl_NL_normal [OF that(1,2,3)] that(4) by simp
  show ?thesis using 1 2 3 has by auto
qed

theorem delete_issue_line_no_match_witness:
  "\<not> list_ex (issue_match ev0) (section_lines ISSUES_HEADERS (splitlines doc_issue)) \<and>
   list_all clean doc_issue_lines \<and> doc_issue_lines \<noteq> [] \<and> last doc_issue_lines \<noteq> [] \<and>
   doc_issue = join_nl doc_issue_lines @ [NL] \<and>
   delete_issue_line doc_issue ev0 = Inr doc_issue"
  using delete_issue_line_no_match [of doc_issue ev0 doc_issue_lines] doc_issue_no_match doc_issue_lines_ok
    doc_issue_def
  by blast

theorem delete_issue_line_adds_newline:
  "\<not> list_ex (issue_match ev0) (section_lines ISSUES_HEADERS (splitlines (asc ''# issues found''))) \<and>
   delete_issue_line (asc ''# issues found'') ev0 = Inr (asc ''# issues found'' @ [NL]) \<and>
   delete_issue_line (asc ''# issues found'') ev0 \<noteq> Inr (asc ''# issues found'')"
  by (simp add: delete_issue_line_def splitlines_def op_simps eval_simps)

section \<open>Inserting a line into a section\<close>

lemma shape_bounds:
  assumes "shape pats L A h C D"
  shows "section_bounds L pats = Some (length A + 1 + length C - length (body C), length A + 1 + length C)"
    and "section_lines pats L = body C"
proof -
  have sb: "section_bounds L pats =
     Some (length A + 1 + (if C \<noteq> [] \<and> is_divider (hd C) then 1 else 0), length A + 1 + length C)"
    using assms section_bounds_shape [of pats A h C D] by (simp add: shape_def)
  show "section_bounds L pats = Some (length A + 1 + length C - length (body C), length A + 1 + length C)"
    unfolding sb by (cases C) (auto simp: body_def)
  have L: "L = A @ h # C @ D" using assms by (simp add: shape_def)
  show "section_lines pats L = body C"
    unfolding section_lines_def sb by (cases C) (auto simp: body_def L)
qed

lemma shape_exists:
  assumes "section_bounds L pats = Some (s, e)"
  obtains A h C D where "shape pats L A h C D" "e = length A + 1 + length C"
  using assms by (rule section_bounds_decomp) (auto simp: shape_def)

lemma has_section_shape:
  assumes "has_section pats L"
  obtains A h C D where "shape pats L A h C D"
proof -
  from assms obtain b where "section_bounds L pats = Some b"
    using section_bounds_None [of L pats] by auto
  then show ?thesis using that by (cases b) (auto elim: shape_exists)
qed

lemma shape_unique:
  assumes "shape pats L A h C D" "shape pats L A' h' C' D'"
  shows "A' = A \<and> h' = h \<and> C' = C \<and> D' = D"
proof -
  have L: "L = A @ h # C @ D" "L = A' @ h' # C' @ D'" using assms by (simp_all add: shape_def)
  have "find_section_start (A @ h # C @ D) pats = Some (length A)"
    using assms(1) by (intro find_section_start_at) (simp_all add: shape_def)
  moreover have "find_section_start (A' @ h' # C' @ D') pats = Some (length A')"
    using assms(2) by (intro find_section_start_at) (simp_all add: shape_def)
  ultimately have len: "length A' = length A" by (metis L option.inject)
  have eq: "A @ h # C @ D = A' @ h' # C' @ D'" using L by metis
  with len have A: "A' = A" by (metis append_eq_append_conv)
  with eq have h: "h' = h" and CD: "C @ D = C' @ D'" by simp_all
  have "takeWhile (\<lambda>l. \<not> any_header l) (C @ D) = C" "takeWhile (\<lambda>l. \<not> any_header l) (C' @ D') = C'"
    using assms by (auto simp: shape_def intro!: takeWhile_stop)
  with CD have "C' = C" by simp
  with CD A h show ?thesis by simp
qed

lemma body_snoc: "\<not> is_divider x \<Longrightarrow> body (C @ [x]) = body C @ [x]"
  by (cases C) (auto simp: body_def)

lemma shape_insert_end:
  assumes "shape pats L A h C D" "\<not> any_header x"
  shows "shape pats (insert_lines (length A + 1 + length C) [x] L) A h (C @ [x]) D"
  using assms by (auto simp: shape_def insert_lines_def)

lemma section_lines_insert_end:
  assumes "section_bounds L pats = Some (s, e)" "\<not> any_header x" "\<not> is_divider x"
  shows "section_lines pats (insert_lines e [x] L) = section_lines pats L @ [x]"
proof -
  from assms(1) obtain A h C D where sh: "shape pats L A h C D" and e: "e = length A + 1 + length C"
    by (rule shape_exists)
  have "shape pats (insert_lines e [x] L) A h (C @ [x]) D"
    unfolding e using sh assms(2) by (rule shape_insert_end)
  then show ?thesis using sh assms(3) by (simp add: shape_bounds body_snoc)
qed

text \<open>Dropping the empty last line of a document changes a section only when it runs to the end.\<close>

lemma shape_butlast:
  assumes "shape pats L A h C D" "D \<noteq> []"
  shows "shape pats (butlast L) A h C (butlast D)"
proof -
  have "butlast D = [] \<or> hd (butlast D) = hd D" using assms(2) by (cases D) auto
  then show ?thesis using assms by (auto simp: shape_def butlast_append)
qed

lemma section_lines_drop_last_blank:
  assumes "section_bounds L pats = Some (s, e)" "e < length L \<or> last L \<noteq> []"
  shows "section_lines pats (drop_last_blank L) = section_lines pats L"
proof (cases "length L \<ge> 2 \<and> last L = []")
  case False
  then show ?thesis by (auto simp: drop_last_blank_def)
next
  case True
  from assms(1) obtain A h C D where sh: "shape pats L A h C D" and e: "e = length A + 1 + length C"
    by (rule shape_exists)
  have "D \<noteq> []" using assms(2) True e sh by (auto simp: shape_def)
  then have "shape pats (butlast L) A h C (butlast D)" using sh shape_butlast by simp
  then show ?thesis using sh True by (simp add: shape_bounds drop_last_blank_def)
qed

section \<open>Header lines\<close>

lemma lit_match_Cons:
  "lit_match True (c # p) s \<Longrightarrow> s \<noteq> [] \<and> fold_case (hd s) = fold_case c"
  by (cases s) (auto simp: lit_match_def)

lemma header_start:
  assumes "re_match True (Lit [35] # Ws0 # Lit (c # p) # ts) s"
  shows "case dropWhile is_space (tl s) of [] \<Rightarrow> False | d # _ \<Rightarrow> fold_case d = fold_case c"
proof -
  from assms have 1: "lit_match True [35] s" and 2: "lit_match True (c # p) (dropWhile is_space (drop 1 s))"
    by simp_all
  have "drop 1 s = tl s" by (cases s) simp_all
  with lit_match_Cons [OF 2] show ?thesis by (cases "dropWhile is_space (tl s)") auto
qed

lemma header_letter_of:
  assumes "is_header pats l" "list_all (\<lambda>pat. \<exists>p ts. pat = Lit [35] # Ws0 # Lit (c # p) # ts) pats"
  shows "header_letter l = Some (fold_case c)"
proof -
  from assms(1) obtain pat where pat: "pat \<in> set pats" "re_match True pat (strip l)"
    by (auto simp: is_header_def list_ex_iff)
  with assms(2) obtain p ts where "pat = Lit [35] # Ws0 # Lit (c # p) # ts"
    by (auto simp: list_all_iff)
  with pat(2) have "case dropWhile is_space (tl (strip l)) of [] \<Rightarrow> False | d # _ \<Rightarrow> fold_case d = fold_case c"
    using header_start by blast
  then show ?thesis unfolding header_letter_def
    by (cases "dropWhile is_space (tl (strip l))") simp_all
qed

lemma header_letters:
  "is_header ISSUES_HEADERS l \<Longrightarrow> header_letter l = Some 105"
  "is_header FOUND_HEADERS l \<Longrightarrow> header_letter l = Some 102"
  "is_header REPORTS_HEADERS l \<Longrightarrow> header_letter l = Some 114"
  "is_header BUGS_HEADERS l \<Longrightarrow> header_letter l = Some 98"
proof -
  have f: "fold_case 105 = 105" "fold_case 102 = 102" "fold_case 114 = 114" "fold_case 98 = 98"
    by (simp_all add: fold_case_def)
  show "is_header ISSUES_HEADERS l \<Longrightarrow> header_letter l = Some 105"
    using header_letter_of [of ISSUES_HEADERS l 105] f by (simp add: ISSUES_HEADERS_def asc_simps)
  show "is_header FOUND_HEADERS l \<Longrightarrow> header_letter l = Some 102"
    using header_letter_of [of FOUND_HEADERS l 102] f by (simp add: FOUND_HEADERS_def asc_simps)
  show "is_header REPORTS_HEADERS l \<Longrightarrow> header_letter l = Some 114"
    using header_letter_of [of REPORTS_HEADERS l 114] f by (simp add: REPORTS_HEADERS_def asc_simps)
  show "is_header BUGS_HEADERS l \<Longrightarrow> header_letter l = Some 98"
    using header_letter_of [of BUGS_HEADERS l 98] f by (simp add: BUGS_HEADERS_def asc_simps)
qed

section \<open>Moving an issue to Found/Invalid\<close>

lemma dash_line:
  assumes "l = 45 # 32 # r"
  shows "\<not> any_header l" "\<not> is_divider l" "l \<noteq> []" "\<exists>r'. strip l = 45 # r'"
proof -
  show "\<not> any_header l" using assms by (simp add: any_header_iff)
  show "l \<noteq> []" using assms by simp
  have "dropWhile is_space (rev r @ [32, 45]) = [45] \<or>
        (\<exists>ys. dropWhile is_space (rev r @ [32, 45]) = ys @ [32, 45])"
    by (auto simp: dropWhile_append is_space_def)
  moreover have "strip l = rev (dropWhile is_space (rev r @ [32, 45]))"
    unfolding assms strip_def by (simp add: is_space_def)
  ultimately have st: "strip l = [45] \<or> (\<exists>ys. strip l = 45 # 32 # ys)"
    by (metis rev.simps(2) rev_append rev_singleton_conv append_Cons append_Nil)
  then show "\<not> is_divider l" by (auto simp: is_divider_def asc_simps)
  from st show "\<exists>r'. strip l = 45 # r'" by auto
qed

lemma issue_line_dash: "\<exists>r. issue_line ev = 45 # 32 # r"
  by (simp add: issue_line_def asc_simps)

lemma found_entry_dash: "\<exists>r. found_entry ev bugnum = 45 # 32 # r"
  by (simp add: found_entry_def issue_line_def asc_simps)

lemma section_bounds_insert_end:
  assumes "section_bounds L pats = Some (s, e)" "\<not> any_header x" "\<not> is_divider x"
  shows "section_bounds (insert_lines e [x] L) pats = Some (s, Suc e)"
proof -
  from assms(1) obtain A h C D where sh: "shape pats L A h C D" and e: "e = length A + 1 + length C"
    by (rule shape_exists)
  have "shape pats (insert_lines e [x] L) A h (C @ [x]) D"
    unfolding e using sh assms(2) by (rule shape_insert_end)
  then have "section_bounds (insert_lines e [x] L) pats =
     Some (length A + 1 + length (C @ [x]) - length (body (C @ [x])), length A + 1 + length (C @ [x]))"
    by (rule shape_bounds)
  moreover have "section_bounds L pats = Some (length A + 1 + length C - length (body C), length A + 1 + length C)"
    using sh by (rule shape_bounds)
  moreover have "length (body C) \<le> length C" by (simp add: body_def)
  ultimately show ?thesis using assms(1,3) e by (simp add: body_snoc)
qed

text \<open>What the engine writes after inserting one line at the end of a section, read again.\<close>

lemma reread_insert_end:
  assumes "section_bounds L pats = Some (s, e)" "list_all clean L" "clean x"
    "\<not> any_header x" "\<not> is_divider x" "x \<noteq> []"
  shows "section_lines pats (splitlines (ensure_nl (join_nl (insert_lines e [x] L))))
    = section_lines pats L @ [x]"
proof -
  define L' where "L' = insert_lines e [x] L"
  have cl: "list_all clean L'" using assms(2,3) by (simp add: L'_def list_all_insert_lines)
  have ne: "L' \<noteq> []" by (simp add: L'_def insert_lines_def)
  have sb: "section_bounds L' pats = Some (s, Suc e)"
    unfolding L'_def using assms(1,4,5) by (rule section_bounds_insert_end)
  have le: "e \<le> length L" using assms(1) by (rule section_bounds_le)
  have len: "length L' = Suc (length L)" by (simp add: L'_def insert_lines_def)
  have "Suc e < length L' \<or> last L' \<noteq> []"
  proof (cases "e = length L")
    case True
    then have "L' = L @ [x]" by (simp add: L'_def insert_lines_def)
    then show ?thesis using assms(6) by simp
  next
    case False
    then show ?thesis using le len by simp
  qed
  then have "section_lines pats (drop_last_blank L') = section_lines pats L'"
    using sb by (rule section_lines_drop_last_blank [rotated])
  moreover have "section_lines pats L' = section_lines pats L @ [x]"
    unfolding L'_def using assms(1,4,5) by (rule section_lines_insert_end)
  ultimately show ?thesis using cl ne by (simp add: splitlines_ensure_nl_join L'_def)
qed

lemma move_issue_to_found_eq:
  assumes "\<not> list_ex (issue_match ev) (section_lines ISSUES_HEADERS (splitlines (find_or_create_sections text)))"
  shows "move_issue_to_found text ev bugnum =
    Inr (ensure_nl (join_nl (insert_lines
      (snd (the (section_bounds (splitlines (find_or_create_sections text)) FOUND_HEADERS)))
      [found_entry ev bugnum] (splitlines (find_or_create_sections text)))))"
proof -
  define L where "L = splitlines (find_or_create_sections text)"
  have all: "all_sections L" unfolding L_def by (rule all_sections_scaffolded)
  then obtain ib fb where ib: "section_bounds L ISSUES_HEADERS = Some ib"
    and fb: "section_bounds L FOUND_HEADERS = Some fb"
    using section_bounds_None [of L ISSUES_HEADERS] section_bounds_None [of L FOUND_HEADERS]
    by (auto simp: all_sections_def)
  have es: "ensure_section L FOUND_HEADERS ISSUES_HEADERS FOUND_TITLE = (L, Some fb)"
    by (simp add: ensure_section_def fb)
  have rm: "remove_issue L ib ev = Inr L"
    using ib assms unfolding L_def [symmetric] by (rule remove_issue_no_match)
  have fe: "found_entry ev bugnum = (if strip bugnum \<noteq> []
      then asc ''- ['' @ strip bugnum @ asc ''] ['' @ ev_time ev @ asc '']['' @ ev_platform ev @ asc ''] '' @ ev_desc ev
      else issue_line ev)"
    by (simp add: found_entry_def issue_line_def asc_simps)
  show ?thesis
    unfolding move_issue_to_found_def L_def [symmetric] Let_def es fe
    by (simp add: ib fb rm)
qed

text \<open>
  Claim C9. When no line of Issues Found matches the issue, \<open>move_issue_to_found\<close>
  removes nothing and still inserts the entry line (tagged when the tag is not empty)
  at the end boundary of Found/Invalid: the result is the scaffolded document with
  that one line inserted, and, the entry being a single line, the Found/Invalid
  section read from the result is the old one followed by the entry.
\<close>

theorem move_issue_to_found_no_match:
  assumes "\<not> list_ex (issue_match ev) (section_lines ISSUES_HEADERS (splitlines (find_or_create_sections text)))"
  shows "move_issue_to_found text ev bugnum =
      Inr (ensure_nl (join_nl (insert_lines
        (snd (the (section_bounds (splitlines (find_or_create_sections text)) FOUND_HEADERS)))
        [found_entry ev bugnum] (splitlines (find_or_create_sections text)))))
    \<and> (clean (found_entry ev bugnum) \<longrightarrow>
        section_lines FOUND_HEADERS (splitlines (projr (move_issue_to_found text ev bugnum)))
          = section_lines FOUND_HEADERS (splitlines (find_or_create_sections text)) @ [found_entry ev bugnum])"
proof -
  define L where "L = splitlines (find_or_create_sections text)"
  have all: "all_sections L" unfolding L_def by (rule all_sections_scaffolded)
  then obtain s e where fb: "section_bounds L FOUND_HEADERS = Some (s, e)"
    using section_bounds_None [of L FOUND_HEADERS] by (auto simp: all_sections_def)
  obtain r where r: "found_entry ev bugnum = 45 # 32 # r" using found_entry_dash by blast
  note d = dash_line [OF r]
  have cl: "list_all clean L" unfolding L_def by (rule splitlines_clean)
  have eq: "move_issue_to_found text ev bugnum =
      Inr (ensure_nl (join_nl (insert_lines e [found_entry ev bugnum] L)))"
    using move_issue_to_found_eq [OF assms, of bugnum] fb unfolding L_def [symmetric] by simp
  have "section_lines FOUND_HEADERS (splitlines (ensure_nl (join_nl (insert_lines e [found_entry ev bugnum] L))))
      = section_lines FOUND_HEADERS L @ [found_entry ev bugnum]" if "clean (found_entry ev bugnum)"
    using fb cl that d(1,2,3) by (rule reread_insert_end)
  then show ?thesis using eq fb unfolding L_def [symmetric] by simp
qed

lemma focs_doc_issue: "find_or_create_sections doc_issue = doc_issue"
proof -
  have "all_sections (splitlines doc_issue)"
    unfolding splitlines_doc_issue
    by (simp add: doc_issue_lines_def all_sections_def has_section_simps eval_simps)
  then show ?thesis by (rule find_or_create_sections_present)
qed

theorem move_issue_to_found_no_match_witness:
  "\<not> list_ex (issue_match ev0) (section_lines ISSUES_HEADERS (splitlines (find_or_create_sections doc_issue))) \<and>
   clean (found_entry ev0 (asc ''BUG-42'')) \<and>
   found_entry ev0 (asc ''BUG-42'') = asc ''- [BUG-42] [10:00 AM][ps5] Crash on load'' \<and>
   section_lines FOUND_HEADERS (splitlines (find_or_create_sections doc_issue)) = [] \<and>
   section_lines FOUND_HEADERS (splitlines (projr (move_issue_to_found doc_issue ev0 (asc ''BUG-42''))))
     = [asc ''- [BUG-42] [10:00 AM][ps5] Crash on load'']"
proof -
  have nm: "\<not> list_ex (issue_match ev0) (section_lines ISSUES_HEADERS (splitlines (find_or_create_sections doc_issue)))"
    unfolding focs_doc_issue by (rule doc_issue_no_match)
  have fe: "found_entry ev0 (asc ''BUG-42'') = asc ''- [BUG-42] [10:00 AM][ps5] Crash on load''"
    by (simp add: found_entry_def issue_line_def ev0_def eval_simps)
  have cl: "clean (found_entry ev0 (asc ''BUG-42''))"
    unfolding fe by (simp add: eval_simps)
  have old: "section_lines FOUND_HEADERS (splitlines (find_or_create_sections doc_issue)) = []"
    unfolding focs_doc_issue splitlines_doc_issue
    by (simp add: doc_issue_lines_def section_lines_def section_bounds_def eval_simps)
  have "section_lines FOUND_HEADERS (splitlines (projr (move_issue_to_found doc_issue ev0 (asc ''BUG-42''))))
      = section_lines FOUND_HEADERS (splitlines (find_or_create_sections doc_issue)) @ [found_entry ev0 (asc ''BUG-42'')]"
    using move_issue_to_found_no_match [OF nm, of "asc ''BUG-42''"] cl by blast
  then have "section_lines FOUND_HEADERS (splitlines (projr (move_issue_to_found doc_issue ev0 (asc ''BUG-42''))))
      = [asc ''- [BUG-42] [10:00 AM][ps5] Crash on load'']"
    unfolding old fe by simp
  then show ?thesis using nm cl fe old by blast
qed


section \<open>Appending an issue\<close>

lemma nth_mid:
  assumes "length A < i" "i < length A + 1 + length C"
  shows "(A @ h # C @ D) ! i = C ! (i - length A - 1)" "(A @ h # C @ D) ! i \<in> set C"
proof -
  have "i - Suc (length A) < length C" using assms by arith
  then show 1: "(A @ h # C @ D) ! i = C ! (i - length A - 1)"
    using assms by (simp add: nth_append nth_Cons')
  show "(A @ h # C @ D) ! i \<in> set C" unfolding 1 using assms by simp
qed

lemma insert_lines_left:
  "p \<le> length A \<Longrightarrow> insert_lines p xs (A @ B) = insert_lines p xs A @ B"
  by (simp add: insert_lines_def)

lemma insert_lines_right:
  "length A \<le> p \<Longrightarrow> insert_lines p xs (A @ B) = A @ insert_lines (p - length A) xs B"
  by (simp add: insert_lines_def)

lemma fold_case_35: "fold_case c = 35 \<longleftrightarrow> c = 35"
  by (auto simp: fold_case_def)

lemma header_hash:
  assumes "is_header pats l" "list_all (\<lambda>pat. \<exists>ts. pat = Lit [35] # ts) pats"
  shows "\<exists>r. strip l = 35 # r"
proof -
  from assms(1) obtain pat where pat: "pat \<in> set pats" "re_match True pat (strip l)"
    by (auto simp: is_header_def list_ex_iff)
  with assms(2) obtain ts where "pat = Lit [35] # ts" by (auto simp: list_all_iff)
  with pat(2) have "lit_match True [35] (strip l)" by simp
  then have "strip l \<noteq> [] \<and> fold_case (hd (strip l)) = fold_case 35" by (rule lit_match_Cons)
  moreover have "fold_case 35 = 35" by (simp add: fold_case_def)
  ultimately have "strip l \<noteq> [] \<and> hd (strip l) = 35" by (simp add: fold_case_35)
  then show ?thesis by (cases "strip l") auto
qed

lemma section_header_hash:
  assumes "section_header l"
  shows "\<exists>r. strip l = 35 # r"
proof -
  have "list_all (\<lambda>pat. \<exists>ts. pat = Lit [35] # ts) ISSUES_HEADERS"
    "list_all (\<lambda>pat. \<exists>ts. pat = Lit [35] # ts) FOUND_HEADERS"
    "list_all (\<lambda>pat. \<exists>ts. pat = Lit [35] # ts) REPORTS_HEADERS"
    "list_all (\<lambda>pat. \<exists>ts. pat = Lit [35] # ts) BUGS_HEADERS"
    by (simp_all add: ISSUES_HEADERS_def FOUND_HEADERS_def REPORTS_HEADERS_def BUGS_HEADERS_def asc_simps)
  then show ?thesis using assms header_hash unfolding section_header_def by blast
qed

lemma dash_not_header: "l = 45 # 32 # r \<Longrightarrow> \<not> section_header l"
  using dash_line(4) [of l r] section_header_hash [of l] by auto

lemma last_insert_lines:
  "x \<noteq> [] \<Longrightarrow> L \<noteq> [] \<Longrightarrow> last L \<noteq> [] \<Longrightarrow> last (insert_lines e [x] L) \<noteq> []"
  by (cases "drop e L = []") (auto simp: insert_lines_def)


lemma shape_insert_other:
  assumes I: "shape I L A h C D" and X: "shape X L A' h' C' D'"
    and ah: "any_header h" "any_header h'" and ne: "\<not> is_header X h"
    and x: "\<not> any_header x" "\<not> is_header X x"
  obtains A'' D'' where "shape X (insert_lines (length A + 1 + length C) [x] L) A'' h' C' D''"
    "D'' = [] \<longleftrightarrow> D' = []"
proof -
  define p where "p = length A + 1 + length C"
  have L1: "L = A @ h # C @ D" and L2: "L = A' @ h' # C' @ D'"
    using I X by (simp_all add: shape_def)
  have CI: "list_all (\<lambda>l. \<not> any_header l) C" and CX: "list_all (\<lambda>l. \<not> any_header l) C'"
    using I X by (simp_all add: shape_def)
  have pL: "p \<le> length L" unfolding p_def using L1 by simp
  consider (before) "p \<le> length A'" | (after) "p > length A' + 1 + length C'"
    | (inside) "length A' < p" "p \<le> length A' + 1 + length C'" by linarith
  then have "\<exists>A'' D''. shape X (insert_lines p [x] L) A'' h' C' D'' \<and> (D'' = [] \<longleftrightarrow> D' = [])"
  proof cases
    case before
    have "insert_lines p [x] L = insert_lines p [x] A' @ h' # C' @ D'"
      unfolding L2 using before by (rule insert_lines_left)
    moreover have "\<not> has_section X (insert_lines p [x] A')"
      using X x(2) by (simp add: shape_def has_section_insert_lines has_section_simps)
    ultimately have "shape X (insert_lines p [x] L) (insert_lines p [x] A') h' C' D'"
      using X by (simp add: shape_def)
    then show ?thesis by blast
  next
    case after
    then have D': "D' \<noteq> []" using pL L2 by auto
    define k where "k = p - (length A' + 1 + length C')"
    have k: "k \<ge> 1" using after by (simp add: k_def)
    have "insert_lines p [x] ((A' @ h' # C') @ D') = (A' @ h' # C') @ insert_lines (p - length (A' @ h' # C')) [x] D'"
      using after by (intro insert_lines_right) simp
    then have eq: "insert_lines p [x] L = A' @ h' # C' @ insert_lines k [x] D'"
      unfolding L2 k_def by simp
    have "hd (insert_lines k [x] D') = hd D'"
      using k D' by (cases D') (auto simp: insert_lines_def take_Cons')
    moreover have "any_header (hd D')" using X D' by (simp add: shape_def)
    moreover have ne': "insert_lines k [x] D' \<noteq> []" by (simp add: insert_lines_def)
    ultimately have "shape X (insert_lines p [x] L) A' h' C' (insert_lines k [x] D')"
      unfolding eq using X by (simp add: shape_def)
    then show ?thesis using ne' D' by blast
  next
    case inside
    have False
    proof (cases "length A" "length A'" rule: linorder_cases)
      case less
      then have "L ! length A' \<in> set C" unfolding L1 using inside by (intro nth_mid) (simp_all add: p_def)
      moreover have "L ! length A' = h'" unfolding L2 by simp
      ultimately show False using ah(2) CI by (auto simp: list_all_iff)
    next
      case equal
      have "L ! length A = h" unfolding L1 by simp
      moreover have "L ! length A' = h'" unfolding L2 by simp
      ultimately have "h = h'" using equal by simp
      then show False using ne X by (simp add: shape_def)
    next
      case greater
      then have "L ! length A \<in> set C'" unfolding L2 using inside by (intro nth_mid) (simp_all add: p_def)
      moreover have "L ! length A = h" unfolding L1 by simp
      ultimately show False using ah(1) CX by (auto simp: list_all_iff)
    qed
    then show ?thesis ..
  qed
  then show ?thesis using that unfolding p_def by blast
qed

lemma splitlines_keep_from_append_clean:
  "clean l \<Longrightarrow> splitlines_keep_from cur (l @ rest) = splitlines_keep_from (cur @ l) rest"
proof (induction l arbitrary: cur)
  case Nil
  then show ?case by simp
next
  case (Cons c l)
  then have "c \<noteq> 13" by auto
  then show ?case using Cons by simp
qed

lemma splitlines_keep_from_line:
  "clean l \<Longrightarrow> splitlines_keep_from cur (l @ NL # rest) = (cur @ l @ [NL]) # splitlines_keep_from [] rest"
proof -
  have "splitlines_keep_from cur (NL # rest) = (cur @ [NL]) # splitlines_keep_from [] rest" for cur
    by (simp add: NL_def is_linebreak_def)
  then show "clean l \<Longrightarrow> ?thesis"
    by (simp add: splitlines_keep_from_append_clean del: splitlines_keep_from.simps)
qed

lemma splitlines_keep_lines:
  "list_all clean ls \<Longrightarrow> splitlines_keep (concat (map (\<lambda>l. l @ [NL]) ls)) = map (\<lambda>l. l @ [NL]) ls"
proof (induction ls)
  case Nil
  then show ?case by (simp add: splitlines_keep_def)
next
  case (Cons l ls)
  then show ?case
    using splitlines_keep_from_line [of l "[]" "concat (map (\<lambda>l. l @ [NL]) ls)"]
    by (simp add: splitlines_keep_def)
qed

lemma join_nl_NL_concat: "ls \<noteq> [] \<Longrightarrow> join_nl ls @ [NL] = concat (map (\<lambda>l. l @ [NL]) ls)"
  by (induction ls rule: join_nl.induct) simp_all

lemma ensure_nl_join:
  assumes "list_all clean ls" "ls \<noteq> []"
  shows "ensure_nl (join_nl ls) = join_nl (drop_last_blank ls) @ [NL]"
proof (cases "length ls \<ge> 2 \<and> last ls = []")
  case True
  then have ls: "ls = butlast ls @ [[]]" "butlast ls \<noteq> []"
    by (metis append_butlast_last_id assms(2), cases ls rule: rev_cases) auto
  have "join_nl ls = join_nl (butlast ls) @ [NL]"
    using join_nl_snoc [OF ls(2), of "[]"] ls(1) by simp
  moreover have "endswith_nl (join_nl ls)" using assms True by (simp add: endswith_nl_join)
  ultimately show ?thesis using True by (simp add: ensure_nl_def drop_last_blank_def)
next
  case False
  then have "\<not> endswith_nl (join_nl ls)" using assms by (simp add: endswith_nl_join)
  moreover have "drop_last_blank ls = ls" using False by (auto simp: drop_last_blank_def)
  ultimately show ?thesis by (simp add: ensure_nl_def)
qed

lemma drop_last_blank_nonempty: "ls \<noteq> [] \<Longrightarrow> drop_last_blank ls \<noteq> []"
  by (cases ls rule: rev_cases) (auto simp: drop_last_blank_def)

lemma list_all_drop_last_blank: "list_all P ls \<Longrightarrow> list_all P (drop_last_blank ls)"
  by (auto simp: drop_last_blank_def list_all_iff dest: in_set_butlastD)

lemma splitlines_keep_written:
  assumes "list_all clean ls" "ls \<noteq> []"
  shows "splitlines_keep (ensure_nl (join_nl ls)) = map (\<lambda>l. l @ [NL]) (drop_last_blank ls)"
proof -
  have "ensure_nl (join_nl ls) = concat (map (\<lambda>l. l @ [NL]) (drop_last_blank ls))"
    using assms by (simp add: ensure_nl_join join_nl_NL_concat drop_last_blank_nonempty)
  then show ?thesis using assms(1) by (simp add: splitlines_keep_lines list_all_drop_last_blank)
qed

text \<open>The bytes of a section of a text the engine has written: its lines, each with a newline.\<close>

lemma section_raw_written:
  assumes "list_all clean ls" "ls \<noteq> []"
  shows "section_raw pats (ensure_nl (join_nl ls))
    = map (\<lambda>l. l @ [NL]) (section_lines pats (drop_last_blank ls))"
  using assms
  by (simp add: section_raw_def section_lines_def splitlines_ensure_nl_join splitlines_keep_written
      take_map drop_map split: option.splits)


lemma header_line_shape: "shape pats L A h C D \<Longrightarrow> header_line pats L = h"
  using find_section_start_at [of pats A h "C @ D"] by (simp add: shape_def header_line_def)

lemma other_header:
  assumes "X \<in> {FOUND_HEADERS, REPORTS_HEADERS, BUGS_HEADERS}" "is_header X l"
  shows "section_header l" "\<not> is_header ISSUES_HEADERS l"
  using assms header_letters [of l] by (auto simp: section_header_def)

lemma with_issue_issues:
  assumes "has_section ISSUES_HEADERS (splitlines d)" "x = 45 # 32 # r" "clean x"
  shows "section_lines ISSUES_HEADERS (splitlines (with_issue x d))
    = section_lines ISSUES_HEADERS (splitlines d) @ [x]"
proof -
  from assms(1) obtain s e where ib: "section_bounds (splitlines d) ISSUES_HEADERS = Some (s, e)"
    using section_bounds_None [of "splitlines d" ISSUES_HEADERS] by auto
  note dl = dash_line [OF assms(2)]
  show ?thesis
    unfolding with_issue_def ib using ib splitlines_clean assms(3) dl(1,2,3)
    by (simp add: reread_insert_end)
qed

lemma with_issue_other:
  assumes I: "has_section ISSUES_HEADERS (splitlines d)" and X: "has_section X (splitlines d)"
    and XF: "X \<in> {FOUND_HEADERS, REPORTS_HEADERS, BUGS_HEADERS}"
    and ah: "any_header (header_line ISSUES_HEADERS (splitlines d))" "any_header (header_line X (splitlines d))"
    and x: "x = 45 # 32 # r" "clean x"
    and nt: "nl_terminated X d"
    and nb: "\<not> runs_to_blank_end X (splitlines d)"
  shows "section_bytes X (with_issue x d) = section_bytes X d"
proof -
  define L where "L = splitlines d"
  from I obtain A h C D where sI: "shape ISSUES_HEADERS L A h C D"
    unfolding L_def [symmetric] by (rule has_section_shape)
  from X obtain A' h' C' D' where sX: "shape X L A' h' C' D'"
    unfolding L_def [symmetric] by (rule has_section_shape)
  have hh: "header_line ISSUES_HEADERS L = h" "header_line X L = h'"
    using sI sX by (simp_all add: header_line_shape)
  have ah': "any_header h" "any_header h'" using ah hh unfolding L_def [symmetric] by simp_all
  have ne: "\<not> is_header X h" using other_header(2) [OF XF, of h] sI by (auto simp: shape_def)
  note dl = dash_line [OF x(1)]
  have nx: "\<not> is_header X x" using other_header(1) [OF XF, of x] dash_not_header [OF x(1)] by blast
  define e where "e = length A + 1 + length C"
  have ib: "section_bounds L ISSUES_HEADERS = Some (length A + 1 + length C - length (body C), e)"
    unfolding e_def using sI by (rule shape_bounds)
  have xb: "section_bounds L X = Some (length A' + 1 + length C' - length (body C'), length A' + 1 + length C')"
    using sX by (rule shape_bounds)
  define L' where "L' = insert_lines e [x] L"
  obtain A'' D'' where s': "shape X L' A'' h' C' D''" and DD: "D'' = [] \<longleftrightarrow> D' = []"
    unfolding L'_def e_def using sI sX ah' ne dl(1) nx by (rule shape_insert_other)
  have Lne: "L \<noteq> []" using sI by (simp add: shape_def)
  have cl: "list_all clean L'" unfolding L'_def L_def using splitlines_clean x(2)
    by (simp add: list_all_insert_lines)
  have ne': "L' \<noteq> []" by (simp add: L'_def insert_lines_def)
  have "section_lines X (drop_last_blank L') = body C'"
  proof (cases "length L' \<ge> 2 \<and> last L' = []")
    case False
    then have "drop_last_blank L' = L'" by (auto simp: drop_last_blank_def)
    then show ?thesis using s' by (simp add: shape_bounds)
  next
    case True
    have "last L = []"
      using True last_insert_lines [OF dl(3) Lne, of e] unfolding L'_def by blast
    then have "length A' + 1 + length C' \<noteq> length L"
      using nb Lne xb unfolding L_def [symmetric] runs_to_blank_end_def by simp
    moreover have "L = A' @ h' # C' @ D'" using sX by (simp add: shape_def)
    ultimately have "D' \<noteq> []" by auto
    then have "D'' \<noteq> []" using DD by simp
    then have "shape X (butlast L') A'' h' C' (butlast D'')" using s' shape_butlast by simp
    then show ?thesis using True by (simp add: shape_bounds drop_last_blank_def)
  qed
  moreover have "section_lines X L = body C'" using sX by (rule shape_bounds)
  ultimately have "section_raw X (ensure_nl (join_nl L')) = map (\<lambda>l. l @ [NL]) (section_lines X L)"
    using cl ne' by (simp add: section_raw_written)
  moreover have "section_raw X d = map (\<lambda>l. l @ [NL]) (section_lines X L)"
    using nt by (simp add: nl_terminated_def L_def)
  moreover have "with_issue x d = ensure_nl (join_nl L')"
    unfolding with_issue_def L'_def L_def [symmetric] ib by simp
  ultimately show ?thesis by (simp add: section_bytes_def)
qed

lemma add_issue_line_in_eq:
  assumes "has_section ISSUES_HEADERS (splitlines (scaffold d))"
  shows "add_issue_line_in scaffold lowercase now d time_str platform desc =
     Inr (with_issue (new_issue_line lowercase now time_str platform desc) (scaffold d))"
proof -
  define L where "L = splitlines (scaffold d)"
  from assms obtain s e where ib: "section_bounds L ISSUES_HEADERS = Some (s, e)"
    using section_bounds_None [of L ISSUES_HEADERS] unfolding L_def by auto
  show ?thesis
    unfolding add_issue_line_in_def with_issue_def L_def [symmetric] Let_def
    by (simp add: ib new_issue_line_def issue_line_def)
qed

lemma new_issue_line_dash: "\<exists>r. new_issue_line lowercase now time_str platform desc = 45 # 32 # r"
  unfolding new_issue_line_def by (rule issue_line_dash)

lemma digit_examples: "is_decimal 57" "is_decimal 48" "is_decimal 53" "\<not> is_decimal 58" "digit_val 57 = Some 9"
  by (simp_all add: is_decimal_def digit_val_def DIGIT_ZEROS_def)

lemma new_issue_line_time:
  "new_issue_line lower (asc ''10:00 AM'') (asc ''9:05 pm'') (asc ''PS5'') desc
     = asc ''- [09:05 PM][ps5] '' @ strip desc"
  by (simp add: new_issue_line_def issue_line_def normalize_time_12h_def after_minutes_def Let_def
      digit_examples int_of_digits_def two_digits_def upper_ascii_def lower_def lower_char_def
      str_nat.simps [of 9] asc_simps NL_def is_space_def is_linebreak_def strip_def
      split del: if_split)

lemma new_issue_line_example:
  "new_issue_line lower (asc ''10:00 AM'') (asc ''9:05 pm'') (asc ''PS5'') (asc '' Crash on load '')
     = asc ''- [09:05 PM][ps5] Crash on load''"
  unfolding new_issue_line_time by (simp add: eval_simps)

lemma new_issue_line_lines:
  "new_issue_line lower (asc ''10:00 AM'') (asc ''9:05 pm'') (asc ''PS5'') desc_lines
     = asc ''- [09:05 PM][ps5] x'' @ [NL] @ asc ''# bugs'' @ [NL] @ asc ''y''"
  unfolding new_issue_line_time by (simp add: desc_lines_def eval_simps)

lemma section_raw_lines:
  assumes "list_all clean ls" "ls \<noteq> []"
  shows "section_raw pats (join_nl ls @ [NL]) = map (\<lambda>l. l @ [NL]) (section_lines pats ls)"
proof -
  have "join_nl ls @ [NL] = concat (map (\<lambda>l. l @ [NL]) ls)" using assms(2) by (rule join_nl_NL_concat)
  then have "splitlines_keep (join_nl ls @ [NL]) = map (\<lambda>l. l @ [NL]) ls"
    using assms(1) by (simp add: splitlines_keep_lines)
  then show ?thesis
    using assms
    by (simp add: section_raw_def section_lines_def splitlines_join_nl_NL take_map drop_map
        split: option.splits)
qed

lemma with_issue_lines:
  assumes "splitlines d = ls" "section_bounds ls ISSUES_HEADERS = Some (s, e)"
  shows "with_issue x d = ensure_nl (join_nl (insert_lines e [x] ls))"
  using assms by (simp add: with_issue_def)

lemma add_issue_line_present:
  "all_sections (splitlines d) \<Longrightarrow> add_issue_line lowercase now d time_str platform desc =
     Inr (with_issue (new_issue_line lowercase now time_str platform desc) d)"
  unfolding add_issue_line_def
  using add_issue_line_in_eq [of find_or_create_sections d] find_or_create_sections_present [of d]
  by (simp add: all_sections_def)


lemma splitlines_doc_blank_end: "splitlines doc_blank_end = doc_issue_lines @ [[]]"
  unfolding doc_blank_end_def using doc_issue_lines_ok(1)
  by (simp add: splitlines_join_nl butlast_append)

lemma blank_end_case:
  "all_sections (splitlines doc_blank_end)"
  "section_bytes BUGS_HEADERS doc_blank_end = asc ''old'' @ [NL, NL]"
  "section_bytes BUGS_HEADERS (projr (add_issue_line lower (asc ''10:00 AM'') doc_blank_end
      (asc ''9:05 pm'') (asc ''PS5'') (asc '' Crash on load ''))) = asc ''old'' @ [NL]"
proof -
  let ?x = "asc ''- [09:05 PM][ps5] Crash on load''"
  let ?L' = "[asc ''# issues found'', asc ''- [09:15 AM][pc] Menu flicker'', ?x, asc ''# found'',
     asc ''# reports written'', asc ''# bugs'', asc ''old'', []]"
  show all: "all_sections (splitlines doc_blank_end)"
    unfolding splitlines_doc_blank_end
    by (simp add: doc_issue_lines_def all_sections_def has_section_simps eval_simps)
  have d: "doc_blank_end = join_nl (doc_issue_lines @ [[]]) @ [NL]"
    by (simp add: doc_blank_end_def doc_issue_lines_def)
  have "section_raw BUGS_HEADERS doc_blank_end
      = map (\<lambda>l. l @ [NL]) (section_lines BUGS_HEADERS (doc_issue_lines @ [[]]))"
    unfolding d using doc_issue_lines_ok(1) by (intro section_raw_lines) (simp_all add: clean_simps)
  also have "section_lines BUGS_HEADERS (doc_issue_lines @ [[]]) = [asc ''old'', []]"
    by (simp add: doc_issue_lines_def section_lines_def section_bounds_def Let_def eval_simps
        split del: if_split)
  finally show "section_bytes BUGS_HEADERS doc_blank_end = asc ''old'' @ [NL, NL]"
    by (simp add: section_bytes_def)
  have ib: "section_bounds (doc_issue_lines @ [[]]) ISSUES_HEADERS = Some (1, 2)"
    by (simp add: doc_issue_lines_def section_bounds_def Let_def eval_simps split del: if_split)
  have ins: "insert_lines 2 [?x] (doc_issue_lines @ [[]]) = ?L'"
    by (simp add: doc_issue_lines_def insert_lines_def)
  have eq: "add_issue_line lower (asc ''10:00 AM'') doc_blank_end (asc ''9:05 pm'') (asc ''PS5'')
      (asc '' Crash on load '') = Inr (ensure_nl (join_nl ?L'))"
    unfolding add_issue_line_present [OF all] new_issue_line_example
      with_issue_lines [OF splitlines_doc_blank_end ib] ins ..
  have cl: "list_all clean ?L'" by (simp add: eval_simps)
  have new: "section_lines BUGS_HEADERS (drop_last_blank ?L') = [asc ''old'']"
    by (simp add: drop_last_blank_def section_lines_def section_bounds_def Let_def eval_simps
        split del: if_split)
  show "section_bytes BUGS_HEADERS (projr (add_issue_line lower (asc ''10:00 AM'') doc_blank_end
      (asc ''9:05 pm'') (asc ''PS5'') (asc '' Crash on load ''))) = asc ''old'' @ [NL]"
    unfolding eq sum.sel section_bytes_def comp_def section_raw_written [OF cl list.distinct(2)] new
    by simp
qed


lemma add_issue_line_written:
  assumes "all_sections (splitlines d)" "section_bounds (splitlines d) ISSUES_HEADERS = Some (s, e)"
    and "new_issue_line lowercase now time_str platform desc = x"
    and "list_all clean L'" "join_nl (insert_lines e [x] (splitlines d)) = join_nl L'" "L' \<noteq> []"
  shows "section_bytes X (projr (add_issue_line lowercase now d time_str platform desc))
    = concat (map (\<lambda>l. l @ [NL]) (section_lines X (drop_last_blank L')))"
  unfolding add_issue_line_present [OF assms(1)] assms(3) sum.sel section_bytes_def comp_def
    with_issue_lines [OF refl assms(2)] assms(5) section_raw_written [OF assms(4,6)] ..

lemma section_bytes_lines:
  assumes "list_all clean ls" "ls \<noteq> []"
  shows "section_bytes pats (join_nl ls @ [NL]) = concat (map (\<lambda>l. l @ [NL]) (section_lines pats ls))"
  using assms by (simp add: section_bytes_def section_raw_lines)

lemmas bounds_simps = section_lines_def section_bounds_def Let_def drop_last_blank_def insert_lines_def

lemma bugs_inside_case:
  "all_sections (splitlines doc_bugs_inside)"
  "section_bytes BUGS_HEADERS doc_bugs_inside = asc ''old'' @ [NL]"
  "section_bytes BUGS_HEADERS (projr (add_issue_line lower (asc ''10:00 AM'') doc_bugs_inside
      (asc ''9:05 pm'') (asc ''PS5'') (asc '' Crash on load '')))
    = asc ''old'' @ [NL] @ asc ''- [09:05 PM][ps5] Crash on load'' @ [NL]"
proof -
  let ?x = "asc ''- [09:05 PM][ps5] Crash on load''"
  let ?ls = "[asc ''# issues found'', asc ''#bugs'', asc ''old'', asc ''# found'', asc ''# reports written'']"
  let ?L' = "[asc ''# issues found'', asc ''#bugs'', asc ''old'', ?x, asc ''# found'', asc ''# reports written'']"
  have cl: "list_all clean ?ls" by (simp add: eval_simps)
  have sp: "splitlines doc_bugs_inside = ?ls"
    unfolding doc_bugs_inside_def using cl by (intro splitlines_join_nl_NL) simp_all
  show all: "all_sections (splitlines doc_bugs_inside)"
    unfolding sp by (simp add: all_sections_def has_section_simps eval_simps)
  show "section_bytes BUGS_HEADERS doc_bugs_inside = asc ''old'' @ [NL]"
    unfolding doc_bugs_inside_def section_bytes_lines [OF cl list.distinct(2)]
    by (simp add: bounds_simps eval_simps split del: if_split)
  have ib: "section_bounds (splitlines doc_bugs_inside) ISSUES_HEADERS = Some (1, 3)"
    unfolding sp by (simp add: bounds_simps eval_simps split del: if_split)
  have cl': "list_all clean ?L'" by (simp add: eval_simps)
  have ins: "join_nl (insert_lines 3 [?x] (splitlines doc_bugs_inside)) = join_nl ?L'"
    unfolding sp by (simp add: insert_lines_def)
  show "section_bytes BUGS_HEADERS (projr (add_issue_line lower (asc ''10:00 AM'') doc_bugs_inside
      (asc ''9:05 pm'') (asc ''PS5'') (asc '' Crash on load '')))
    = asc ''old'' @ [NL] @ asc ''- [09:05 PM][ps5] Crash on load'' @ [NL]"
    unfolding add_issue_line_written [OF all ib new_issue_line_example cl' ins list.distinct(2)]
    by (simp add: bounds_simps eval_simps split del: if_split)
qed

lemma issues_inside_case:
  "all_sections (splitlines doc_issues_inside)"
  "section_bytes BUGS_HEADERS doc_issues_inside = asc ''old'' @ [NL] @ asc ''#issues found'' @ [NL]"
  "section_bytes BUGS_HEADERS (projr (add_issue_line lower (asc ''10:00 AM'') doc_issues_inside
      (asc ''9:05 pm'') (asc ''PS5'') (asc '' Crash on load '')))
    = asc ''old'' @ [NL] @ asc ''#issues found'' @ [NL] @ asc ''- [09:05 PM][ps5] Crash on load'' @ [NL]"
proof -
  let ?x = "asc ''- [09:05 PM][ps5] Crash on load''"
  let ?ls = "[asc ''# bugs'', asc ''old'', asc ''#issues found'', asc ''# found'', asc ''# reports written'']"
  let ?L' = "[asc ''# bugs'', asc ''old'', asc ''#issues found'', ?x, asc ''# found'', asc ''# reports written'']"
  have cl: "list_all clean ?ls" by (simp add: eval_simps)
  have sp: "splitlines doc_issues_inside = ?ls"
    unfolding doc_issues_inside_def using cl by (intro splitlines_join_nl_NL) simp_all
  show all: "all_sections (splitlines doc_issues_inside)"
    unfolding sp by (simp add: all_sections_def has_section_simps eval_simps)
  show "section_bytes BUGS_HEADERS doc_issues_inside = asc ''old'' @ [NL] @ asc ''#issues found'' @ [NL]"
    unfolding doc_issues_inside_def section_bytes_lines [OF cl list.distinct(2)]
    by (simp add: bounds_simps eval_simps split del: if_split)
  have ib: "section_bounds (splitlines doc_issues_inside) ISSUES_HEADERS = Some (3, 3)"
    unfolding sp by (simp add: bounds_simps eval_simps split del: if_split)
  have cl': "list_all clean ?L'" by (simp add: eval_simps)
  have ins: "join_nl (insert_lines 3 [?x] (splitlines doc_issues_inside)) = join_nl ?L'"
    unfolding sp by (simp add: insert_lines_def)
  show "section_bytes BUGS_HEADERS (projr (add_issue_line lower (asc ''10:00 AM'') doc_issues_inside
      (asc ''9:05 pm'') (asc ''PS5'') (asc '' Crash on load '')))
    = asc ''old'' @ [NL] @ asc ''#issues found'' @ [NL] @ asc ''- [09:05 PM][ps5] Crash on load'' @ [NL]"
    unfolding add_issue_line_written [OF all ib new_issue_line_example cl' ins list.distinct(2)]
    by (simp add: bounds_simps eval_simps split del: if_split)
qed


lemma form_feed_case:
  "all_sections (splitlines doc_form_feed)"
  "section_bytes BUGS_HEADERS doc_form_feed = asc ''old'' @ [12] @ asc ''more'' @ [NL]"
  "section_bytes BUGS_HEADERS (projr (add_issue_line lower (asc ''10:00 AM'') doc_form_feed
      (asc ''9:05 pm'') (asc ''PS5'') (asc '' Crash on load '')))
    = asc ''old'' @ [NL] @ asc ''more'' @ [NL]"
proof -
  let ?x = "asc ''- [09:05 PM][ps5] Crash on load''"
  let ?ls = "[asc ''# issues found'', asc ''# found'', asc ''# reports written'', asc ''# bugs'',
     asc ''old'', asc ''more'']"
  let ?L' = "[asc ''# issues found'', ?x, asc ''# found'', asc ''# reports written'', asc ''# bugs'',
     asc ''old'', asc ''more'']"
  have sp: "splitlines doc_form_feed = ?ls"
    by (simp add: doc_form_feed_def splitlines_def eval_simps)
  have spk: "splitlines_keep doc_form_feed = [asc ''# issues found'' @ [NL], asc ''# found'' @ [NL],
      asc ''# reports written'' @ [NL], asc ''# bugs'' @ [NL], asc ''old'' @ [12], asc ''more'' @ [NL]]"
    by (simp add: doc_form_feed_def splitlines_keep_def eval_simps)
  show all: "all_sections (splitlines doc_form_feed)"
    unfolding sp by (simp add: all_sections_def has_section_simps eval_simps)
  have bb: "section_bounds ?ls BUGS_HEADERS = Some (4, 6)"
    by (simp add: bounds_simps eval_simps split del: if_split)
  show "section_bytes BUGS_HEADERS doc_form_feed = asc ''old'' @ [12] @ asc ''more'' @ [NL]"
    unfolding section_bytes_def comp_def section_raw_def sp bb spk by simp
  have ib: "section_bounds (splitlines doc_form_feed) ISSUES_HEADERS = Some (1, 1)"
    unfolding sp by (simp add: bounds_simps eval_simps split del: if_split)
  have cl': "list_all clean ?L'" by (simp add: eval_simps)
  have ins: "join_nl (insert_lines 1 [?x] (splitlines doc_form_feed)) = join_nl ?L'"
    unfolding sp by (simp add: insert_lines_def)
  show "section_bytes BUGS_HEADERS (projr (add_issue_line lower (asc ''10:00 AM'') doc_form_feed
      (asc ''9:05 pm'') (asc ''PS5'') (asc '' Crash on load '')))
    = asc ''old'' @ [NL] @ asc ''more'' @ [NL]"
    unfolding add_issue_line_written [OF all ib new_issue_line_example cl' ins list.distinct(2)]
    by (simp add: bounds_simps eval_simps split del: if_split)
qed

lemma section_bytes_doc_issue: "section_bytes BUGS_HEADERS doc_issue = asc ''old'' @ [NL]"
  unfolding doc_issue_def section_bytes_lines [OF doc_issue_lines_ok(1,2)]
  by (simp add: doc_issue_lines_def bounds_simps eval_simps split del: if_split)

lemma all_sections_doc_issue: "all_sections (splitlines doc_issue)"
  unfolding splitlines_doc_issue
  by (simp add: doc_issue_lines_def all_sections_def has_section_simps eval_simps)

lemma bounds_doc_issue: "section_bounds (splitlines doc_issue) ISSUES_HEADERS = Some (1, 2)"
  unfolding splitlines_doc_issue
  by (simp add: doc_issue_lines_def bounds_simps eval_simps split del: if_split)

lemma desc_lines_case:
  "\<not> clean (new_issue_line lower (asc ''10:00 AM'') (asc ''9:05 pm'') (asc ''PS5'') desc_lines)"
  "section_bytes BUGS_HEADERS (projr (add_issue_line lower (asc ''10:00 AM'') doc_issue
      (asc ''9:05 pm'') (asc ''PS5'') desc_lines)) = asc ''y'' @ [NL]"
proof -
  let ?x = "asc ''- [09:05 PM][ps5] x'' @ [NL] @ asc ''# bugs'' @ [NL] @ asc ''y''"
  let ?L' = "[asc ''# issues found'', asc ''- [09:15 AM][pc] Menu flicker'', asc ''- [09:05 PM][ps5] x'',
     asc ''# bugs'', asc ''y'', asc ''# found'', asc ''# reports written'', asc ''# bugs'', asc ''old'']"
  show "\<not> clean (new_issue_line lower (asc ''10:00 AM'') (asc ''9:05 pm'') (asc ''PS5'') desc_lines)"
    unfolding new_issue_line_lines by (simp add: eval_simps clean_def)
  have cl': "list_all clean ?L'" by (simp add: eval_simps)
  have ins: "join_nl (insert_lines 2 [?x] (splitlines doc_issue)) = join_nl ?L'"
    unfolding splitlines_doc_issue by (simp add: doc_issue_lines_def insert_lines_def)
  show "section_bytes BUGS_HEADERS (projr (add_issue_line lower (asc ''10:00 AM'') doc_issue
      (asc ''9:05 pm'') (asc ''PS5'') desc_lines)) = asc ''y'' @ [NL]"
    unfolding add_issue_line_written [OF all_sections_doc_issue bounds_doc_issue new_issue_line_lines
        cl' ins list.distinct(2)]
    by (simp add: bounds_simps eval_simps split del: if_split)
qed

text \<open>
  Claim C7, amended. \<open>add_issue_line\<close> never raises, in both versions of the file,
  whatever \<open>str.lower\<close> is: it returns the scaffolded document (the document itself
  when it has its sections) with the new issue line put at the end bound of Issues
  Found. When the new line is a single line, Issues Found read from the result is
  its previous content, in the same order, followed by the new line. The bytes of
  another section \<open>X\<close> (Found/Invalid, Reports Written or Bugs) are the same before
  and after, when the new line is a single line, the header lines of Issues Found
  and of \<open>X\<close> are section delimiters (\<open>#\<close> followed by a space), every line of \<open>X\<close> ends
  with \<open>"\n"\<close>, and \<open>X\<close> does not run to the end of a document whose last line is empty.
\<close>

theorem add_issue_line_frame:
  "add_issue_line lowercase now d time_str platform desc =
     Inr (with_issue (new_issue_line lowercase now time_str platform desc) (find_or_create_sections d))
   \<and> add_issue_line_test lowercase now d time_str platform desc =
     Inr (with_issue (new_issue_line lowercase now time_str platform desc) (find_or_create_sections_test d))
   \<and> (all_sections (splitlines d) \<longrightarrow>
        add_issue_line lowercase now d time_str platform desc =
          Inr (with_issue (new_issue_line lowercase now time_str platform desc) d))
   \<and> (all_sections_test (splitlines d) \<longrightarrow>
        add_issue_line_test lowercase now d time_str platform desc =
          Inr (with_issue (new_issue_line lowercase now time_str platform desc) d))
   \<and> (has_section ISSUES_HEADERS (splitlines d)
        \<and> clean (new_issue_line lowercase now time_str platform desc) \<longrightarrow>
        section_lines ISSUES_HEADERS
            (splitlines (with_issue (new_issue_line lowercase now time_str platform desc) d))
          = section_lines ISSUES_HEADERS (splitlines d)
            @ [new_issue_line lowercase now time_str platform desc])
   \<and> (has_section ISSUES_HEADERS (splitlines d)
        \<and> clean (new_issue_line lowercase now time_str platform desc)
        \<and> X \<in> {FOUND_HEADERS, REPORTS_HEADERS, BUGS_HEADERS} \<and> has_section X (splitlines d)
        \<and> any_header (header_line ISSUES_HEADERS (splitlines d))
        \<and> any_header (header_line X (splitlines d))
        \<and> nl_terminated X d \<and> \<not> runs_to_blank_end X (splitlines d) \<longrightarrow>
        section_bytes X (with_issue (new_issue_line lowercase now time_str platform desc) d)
          = section_bytes X d)"
proof -
  obtain r where r: "new_issue_line lowercase now time_str platform desc = 45 # 32 # r"
    using new_issue_line_dash by blast
  have 1: "add_issue_line lowercase now d time_str platform desc =
     Inr (with_issue (new_issue_line lowercase now time_str platform desc) (find_or_create_sections d))"
    unfolding add_issue_line_def using all_sections_scaffolded [of d]
    by (intro add_issue_line_in_eq) (simp add: all_sections_def)
  have 2: "add_issue_line_test lowercase now d time_str platform desc =
     Inr (with_issue (new_issue_line lowercase now time_str platform desc) (find_or_create_sections_test d))"
    unfolding add_issue_line_test_def using all_sections_test_scaffolded [of d]
    by (intro add_issue_line_in_eq) (simp add: all_sections_test_def)
  have 3: "add_issue_line lowercase now d time_str platform desc =
          Inr (with_issue (new_issue_line lowercase now time_str platform desc) d)"
    if "all_sections (splitlines d)"
    using 1 find_or_create_sections_present [OF that] by simp
  have 4: "add_issue_line_test lowercase now d time_str platform desc =
          Inr (with_issue (new_issue_line lowercase now time_str platform desc) d)"
    if "all_sections_test (splitlines d)"
    using 2 find_or_create_sections_test_present [OF that] by simp
  show ?thesis
    using 1 2 3 4 with_issue_issues [OF _ r] with_issue_other [OF _ _ _ _ _ r] by blast
qed

theorem add_issue_line_frame_witness:
  "all_sections (splitlines doc_issue) \<and> all_sections_test (splitlines doc_issue)
   \<and> clean (new_issue_line lower (asc ''10:00 AM'') (asc ''9:05 pm'') (asc ''PS5'') (asc '' Crash on load ''))
   \<and> any_header (header_line ISSUES_HEADERS (splitlines doc_issue))
   \<and> any_header (header_line BUGS_HEADERS (splitlines doc_issue))
   \<and> nl_terminated BUGS_HEADERS doc_issue
   \<and> \<not> runs_to_blank_end BUGS_HEADERS (splitlines doc_issue)
   \<and> add_issue_line lower (asc ''10:00 AM'') doc_issue (asc ''9:05 pm'') (asc ''PS5'') (asc '' Crash on load '')
       = Inr (join_nl [asc ''# issues found'', asc ''- [09:15 AM][pc] Menu flicker'',
           asc ''- [09:05 PM][ps5] Crash on load'', asc ''# found'', asc ''# reports written'',
           asc ''# bugs'', asc ''old''] @ [NL])
   \<and> add_issue_line_test lower (asc ''10:00 AM'') doc_issue (asc ''9:05 pm'') (asc ''PS5'') (asc '' Crash on load '')
       = Inr (join_nl [asc ''# issues found'', asc ''- [09:15 AM][pc] Menu flicker'',
           asc ''- [09:05 PM][ps5] Crash on load'', asc ''# found'', asc ''# reports written'',
           asc ''# bugs'', asc ''old''] @ [NL])
   \<and> section_lines ISSUES_HEADERS (splitlines (join_nl [asc ''# issues found'',
           asc ''- [09:15 AM][pc] Menu flicker'', asc ''- [09:05 PM][ps5] Crash on load'', asc ''# found'',
           asc ''# reports written'', asc ''# bugs'', asc ''old''] @ [NL]))
       = [asc ''- [09:15 AM][pc] Menu flicker'', asc ''- [09:05 PM][ps5] Crash on load'']
   \<and> section_bytes BUGS_HEADERS (join_nl [asc ''# issues found'',
           asc ''- [09:15 AM][pc] Menu flicker'', asc ''- [09:05 PM][ps5] Crash on load'', asc ''# found'',
           asc ''# reports written'', asc ''# bugs'', asc ''old''] @ [NL])
       = asc ''old'' @ [NL]"
proof -
  let ?x = "new_issue_line lower (asc ''10:00 AM'') (asc ''9:05 pm'') (asc ''PS5'') (asc '' Crash on load '')"
  let ?L' = "[asc ''# issues found'', asc ''- [09:15 AM][pc] Menu flicker'',
     asc ''- [09:05 PM][ps5] Crash on load'', asc ''# found'', asc ''# reports written'',
     asc ''# bugs'', asc ''old'']"
  note T = add_issue_line_frame [of lower "asc ''10:00 AM''" doc_issue "asc ''9:05 pm''" "asc ''PS5''"
      "asc '' Crash on load ''" BUGS_HEADERS]
  have all: "all_sections (splitlines doc_issue)" by (rule all_sections_doc_issue)
  have allt: "all_sections_test (splitlines doc_issue)"
    using all by (simp add: all_sections_def all_sections_test_def)
  have hs: "has_section ISSUES_HEADERS (splitlines doc_issue)" "has_section BUGS_HEADERS (splitlines doc_issue)"
    using all by (simp_all add: all_sections_def)
  have cl: "clean ?x" unfolding new_issue_line_example by (simp add: eval_simps)
  have ah: "any_header (header_line ISSUES_HEADERS (splitlines doc_issue))"
      "any_header (header_line BUGS_HEADERS (splitlines doc_issue))"
    unfolding splitlines_doc_issue
    by (simp_all add: header_line_def doc_issue_lines_def any_header_def eval_simps)
  have nt: "nl_terminated BUGS_HEADERS doc_issue"
    unfolding nl_terminated_def splitlines_doc_issue
    unfolding doc_issue_def by (rule section_raw_lines [OF doc_issue_lines_ok(1,2)])
  have nb: "\<not> runs_to_blank_end BUGS_HEADERS (splitlines doc_issue)"
    unfolding splitlines_doc_issue runs_to_blank_end_def using doc_issue_lines_ok(3) by simp
  have cl': "list_all clean ?L'" by (simp add: eval_simps)
  have "with_issue ?x doc_issue = ensure_nl (join_nl ?L')"
    unfolding with_issue_lines [OF refl bounds_doc_issue] new_issue_line_example splitlines_doc_issue
    by (simp add: doc_issue_lines_def insert_lines_def)
  also have "\<dots> = join_nl ?L' @ [NL]"
    unfolding ensure_nl_join [OF cl' list.distinct(2)] by (simp add: drop_last_blank_def eval_simps)
  finally have w: "with_issue ?x doc_issue = join_nl ?L' @ [NL]" .
  have c3: "add_issue_line lower (asc ''10:00 AM'') doc_issue (asc ''9:05 pm'') (asc ''PS5'')
      (asc '' Crash on load '') = Inr (join_nl ?L' @ [NL])"
    using T [THEN conjunct2, THEN conjunct2, THEN conjunct1, THEN mp, OF all] unfolding w .
  have c4: "add_issue_line_test lower (asc ''10:00 AM'') doc_issue (asc ''9:05 pm'') (asc ''PS5'')
      (asc '' Crash on load '') = Inr (join_nl ?L' @ [NL])"
    using T [THEN conjunct2, THEN conjunct2, THEN conjunct2, THEN conjunct1, THEN mp, OF allt]
    unfolding w .
  have "section_lines ISSUES_HEADERS (splitlines (with_issue ?x doc_issue))
      = section_lines ISSUES_HEADERS (splitlines doc_issue) @ [?x]"
    by (rule T [THEN conjunct2, THEN conjunct2, THEN conjunct2, THEN conjunct2, THEN conjunct1, THEN mp])
      (intro conjI hs cl)
  also have "section_lines ISSUES_HEADERS (splitlines doc_issue) = [asc ''- [09:15 AM][pc] Menu flicker'']"
    unfolding splitlines_doc_issue
    by (simp add: doc_issue_lines_def bounds_simps eval_simps split del: if_split)
  finally have c5: "section_lines ISSUES_HEADERS (splitlines (join_nl ?L' @ [NL]))
      = [asc ''- [09:15 AM][pc] Menu flicker'', asc ''- [09:05 PM][ps5] Crash on load'']"
    unfolding w unfolding new_issue_line_example by (simp only: append.simps)
  have "section_bytes BUGS_HEADERS (with_issue ?x doc_issue) = section_bytes BUGS_HEADERS doc_issue"
    by (rule T [THEN conjunct2, THEN conjunct2, THEN conjunct2, THEN conjunct2, THEN conjunct2, THEN mp])
      (intro conjI hs cl ah nt nb, simp)
  then have c6: "section_bytes BUGS_HEADERS (join_nl ?L' @ [NL]) = asc ''old'' @ [NL]"
    unfolding w section_bytes_doc_issue .
  show ?thesis by (intro conjI all allt cl ah nt nb c3 c4 c5 c6)
qed

text \<open>
  As claim C7 states it, every other section keeps its bytes in every document
  with the four sections. Each of these runs changes the bytes of Bugs: a document
  ending with an empty line loses it; a description of several lines, its second
  line a Bugs header, puts a new Bugs section before the old one; a header with no
  space after \<open>#\<close>, of Bugs or of Issues Found, does not end the section before it,
  so that the new line is also inside Bugs; a form feed, a line break for
  \<open>splitlines\<close>, is written back as \<open>"\n"\<close>.
\<close>

theorem add_issue_line_changes_bugs:
  "(all_sections (splitlines doc_blank_end)
    \<and> section_bytes BUGS_HEADERS doc_blank_end = asc ''old'' @ [NL, NL]
    \<and> section_bytes BUGS_HEADERS (projr (add_issue_line lower (asc ''10:00 AM'') doc_blank_end
         (asc ''9:05 pm'') (asc ''PS5'') (asc '' Crash on load ''))) = asc ''old'' @ [NL])
   \<and> (all_sections (splitlines doc_issue)
    \<and> section_bytes BUGS_HEADERS doc_issue = asc ''old'' @ [NL]
    \<and> section_bytes BUGS_HEADERS (projr (add_issue_line lower (asc ''10:00 AM'') doc_issue
         (asc ''9:05 pm'') (asc ''PS5'') desc_lines)) = asc ''y'' @ [NL])
   \<and> (all_sections (splitlines doc_bugs_inside)
    \<and> section_bytes BUGS_HEADERS doc_bugs_inside = asc ''old'' @ [NL]
    \<and> section_bytes BUGS_HEADERS (projr (add_issue_line lower (asc ''10:00 AM'') doc_bugs_inside
         (asc ''9:05 pm'') (asc ''PS5'') (asc '' Crash on load '')))
       = asc ''old'' @ [NL] @ asc ''- [09:05 PM][ps5] Crash on load'' @ [NL])
   \<and> (all_sections (splitlines doc_issues_inside)
    \<and> section_bytes BUGS_HEADERS doc_issues_inside = asc ''old'' @ [NL] @ asc ''#issues found'' @ [NL]
    \<and> section_bytes BUGS_HEADERS (projr (add_issue_line lower (asc ''10:00 AM'') doc_issues_inside
         (asc ''9:05 pm'') (asc ''PS5'') (asc '' Crash on load '')))
       = asc ''old'' @ [NL] @ asc ''#issues found'' @ [NL] @ asc ''- [09:05 PM][ps5] Crash on load'' @ [NL])
   \<and> (all_sections (splitlines doc_form_feed)
    \<and> section_bytes BUGS_HEADERS doc_form_feed = asc ''old'' @ [12] @ asc ''more'' @ [NL]
    \<and> section_bytes BUGS_HEADERS (projr (add_issue_line lower (asc ''10:00 AM'') doc_form_feed
         (asc ''9:05 pm'') (asc ''PS5'') (asc '' Crash on load ''))) = asc ''old'' @ [NL] @ asc ''more'' @ [NL])"
  by (intro conjI blank_end_case all_sections_doc_issue section_bytes_doc_issue desc_lines_case(2)
      bugs_inside_case issues_inside_case form_feed_case)


section \<open>Creating the sections\<close>

lemma titles_other:
  "\<not> is_header FOUND_HEADERS ISSUES_TITLE" "\<not> is_header REPORTS_HEADERS ISSUES_TITLE"
  "\<not> is_header BUGS_HEADERS ISSUES_TITLE"
  "\<not> is_header ISSUES_HEADERS FOUND_TITLE" "\<not> is_header REPORTS_HEADERS FOUND_TITLE"
  "\<not> is_header BUGS_HEADERS FOUND_TITLE"
  "\<not> is_header ISSUES_HEADERS REPORTS_TITLE" "\<not> is_header FOUND_HEADERS REPORTS_TITLE"
  "\<not> is_header BUGS_HEADERS REPORTS_TITLE"
  "\<not> is_header ISSUES_HEADERS BUGS_TITLE" "\<not> is_header FOUND_HEADERS BUGS_TITLE"
  "\<not> is_header REPORTS_HEADERS BUGS_TITLE"
  by (simp_all add: eval_simps)

lemma divider_not_header:
  "\<not> is_header ISSUES_HEADERS (asc ''---'')" "\<not> is_header FOUND_HEADERS (asc ''---'')"
  "\<not> is_header REPORTS_HEADERS (asc ''---'')" "\<not> is_header BUGS_HEADERS (asc ''---'')"
  "\<not> any_header (asc ''---'')" "\<not> any_header []" "is_divider (asc ''---'')"
  by (simp_all add: eval_simps any_header_def is_divider_def)

lemma counter_found:
  "find_or_create_sections (asc ''# found'') =
     join_nl [asc ''# found'', REPORTS_TITLE, asc ''---'', [], BUGS_TITLE, asc ''---'', [],
       ISSUES_TITLE, asc ''---'', []]"
  by (simp add: run_simps)


lemma no_sections_take_drop: "no_sections L \<Longrightarrow> no_sections (take k L) \<and> no_sections (drop k L)"
  by (auto simp: no_sections_def has_section_def list_ex_iff dest: in_set_takeD in_set_dropD)

lemma no_sections_takeWhile: "no_sections L \<Longrightarrow> no_sections (takeWhile P L)"
  by (auto simp: no_sections_def has_section_def list_ex_iff dest: set_takeWhileD)

lemma has_section_append: "has_section pats (A @ B) \<longleftrightarrow> has_section pats A \<or> has_section pats B"
  by (simp add: has_section_def)

lemma find_section_start_snoc_blank:
  "\<not> is_header pats [] \<Longrightarrow> find_section_start (L @ [[]]) pats = find_section_start L pats"
  by (induction L) simp_all

lemma find_section_start_drop_last_blank:
  "\<not> is_header pats [] \<Longrightarrow> find_section_start (drop_last_blank L) pats = find_section_start L pats"
proof (cases "length L \<ge> 2 \<and> last L = []")
  case True
  assume b: "\<not> is_header pats []"
  from True have "L = butlast L @ [[]]" by (metis append_butlast_last_id length_0_conv not_numeral_le_zero)
  then have "find_section_start L pats = find_section_start (butlast L) pats"
    using find_section_start_snoc_blank [OF b, of "butlast L"] by simp
  then show ?thesis using True by (simp add: drop_last_blank_def)
next
  case False
  then show ?thesis by (auto simp: drop_last_blank_def)
qed

lemma canonical_order_drop_last_blank: "canonical_order (drop_last_blank L) \<longleftrightarrow> canonical_order L"
  by (simp add: canonical_order_def find_section_start_drop_last_blank blank_not_header)

lemma length_section_block: "length (section_block t) = 3"
  by (simp add: section_block_def)

lemma create_after_at:
  assumes "\<not> has_section pats L" "section_bounds L prev = Some (s, length A1)" "L = A1 @ D"
  shows "create_after pats prev title (L, ch) = (A1 @ section_block title @ D, True)"
  using assms by (simp add: create_after_def section_bounds_None insert_lines_def section_block_def)

text \<open>The scaffolder on lines with none of the sections: the four blocks, in order.\<close>

lemma scaffold_no_sections:
  assumes ns: "no_sections (splitlines d)"
  obtains A C D where
    "find_or_create_sections d = ensure_nl (join_nl (A @ ISSUES_TITLE # C @ section_block FOUND_TITLE
        @ section_block REPORTS_TITLE @ section_block BUGS_TITLE @ D))"
    "no_sections A" "no_sections C" "list_all clean (A @ C @ D)"
proof -
  define L0 where "L0 = splitlines d"
  define p where "p = (if L0 \<noteq> [] \<and> startswith (hd L0) (asc ''# '') then header_end L0 else length L0)"
  define A where "A = take p L0"
  define B where "B = drop p L0"
  define nh where "nh = (\<lambda>l. \<not> any_header l)"
  define C where "C = [asc ''---'', []] @ takeWhile nh B"
  define D where "D = dropWhile nh B"
  define A1 where "A1 = A @ ISSUES_TITLE # C"
  let ?F = "section_block FOUND_TITLE" and ?R = "section_block REPORTS_TITLE"
  let ?B = "section_block BUGS_TITLE"
  have ns0: "no_sections L0" using ns by (simp add: L0_def)
  have nsA: "no_sections A" and nsB: "no_sections B"
    using no_sections_take_drop [OF ns0, of p] by (simp_all add: A_def B_def)
  have nsC: "no_sections C"
    using no_sections_takeWhile [OF nsB, of nh]
    by (simp add: C_def no_sections_def has_section_simps divider_not_header blank_not_header)
  have B: "B = takeWhile nh B @ D" by (simp add: D_def)
  have D: "D = [] \<or> any_header (hd D)"
    using hd_dropWhile [of nh B] by (auto simp: D_def nh_def)
  have nhC: "list_all (\<lambda>l. \<not> any_header l) C"
    by (auto simp: C_def divider_not_header list_all_iff nh_def dest: set_takeWhileD)
  have "create_issues (L0, False) = (insert_lines p [ISSUES_TITLE, asc ''---'', []] L0, True)"
    using ns0 by (simp add: create_issues_def section_bounds_None no_sections_def p_def Let_def)
  moreover have "insert_lines p [ISSUES_TITLE, asc ''---'', []] L0 = A @ ISSUES_TITLE # C @ D"
    unfolding insert_lines_def A_def [symmetric] B_def [symmetric] C_def using B by simp
  ultimately have s1: "create_issues (L0, False) = (A @ ISSUES_TITLE # C @ D, True)" by simp
  have L1: "A @ ISSUES_TITLE # C @ D = A1 @ D" by (simp add: A1_def)
  have sh1: "shape ISSUES_HEADERS (A1 @ D) A ISSUES_TITLE C D"
    using nsA nhC D by (simp add: shape_def A1_def no_sections_def titles_are_headers)
  have hA1: "\<not> has_section FOUND_HEADERS A1" "\<not> has_section REPORTS_HEADERS A1"
    "\<not> has_section BUGS_HEADERS A1"
    using nsA nsC by (simp_all add: A1_def no_sections_def has_section_append has_section_simps titles_other)
  have hD: "\<not> has_section FOUND_HEADERS D" "\<not> has_section REPORTS_HEADERS D" "\<not> has_section BUGS_HEADERS D"
    using nsB B by (metis has_section_append no_sections_def)+
  have len: "length A1 = length A + 1 + length C" by (simp add: A1_def)
  have s2: "create_after FOUND_HEADERS ISSUES_HEADERS FOUND_TITLE (A1 @ D, True) = (A1 @ ?F @ D, True)"
    using hA1(1) hD(1) shape_bounds(1) [OF sh1] unfolding len [symmetric]
    by (intro create_after_at) (simp_all add: has_section_append)
  have sh2: "shape FOUND_HEADERS (A1 @ ?F @ D) A1 FOUND_TITLE [asc ''---'', []] D"
    using hA1 D by (simp add: shape_def section_block_def titles_are_headers divider_not_header)
  have hF: "\<not> has_section REPORTS_HEADERS ?F" "\<not> has_section BUGS_HEADERS ?F"
    by (simp_all add: section_block_def has_section_simps titles_other divider_not_header blank_not_header)
  have hR: "\<not> has_section BUGS_HEADERS ?R"
    by (simp_all add: section_block_def has_section_simps titles_other divider_not_header blank_not_header)
  have n2: "\<not> has_section REPORTS_HEADERS (A1 @ ?F @ D)"
    using hA1(2) hF(1) hD(2) by (simp add: has_section_append)
  have b2: "section_bounds (A1 @ ?F @ D) FOUND_HEADERS
      = Some (length A1 + 1 + length [asc ''---'', []] - length (body [asc ''---'', []]), length (A1 @ ?F))"
    using shape_bounds(1) [OF sh2] by (simp add: length_section_block)
  have s3: "create_after REPORTS_HEADERS FOUND_HEADERS REPORTS_TITLE (A1 @ ?F @ D, True)
      = ((A1 @ ?F) @ ?R @ D, True)"
    by (rule create_after_at [OF n2 b2]) simp
  have sh3: "shape REPORTS_HEADERS ((A1 @ ?F) @ ?R @ D) (A1 @ ?F) REPORTS_TITLE [asc ''---'', []] D"
    using hA1(2) hF(1) D
    by (simp add: shape_def titles_are_headers divider_not_header has_section_append)
      (simp add: section_block_def)
  have n3: "\<not> has_section BUGS_HEADERS ((A1 @ ?F) @ ?R @ D)"
    using hA1(3) hF(2) hR hD(3) by (simp add: has_section_append)
  have b3: "section_bounds ((A1 @ ?F) @ ?R @ D) REPORTS_HEADERS
      = Some (length (A1 @ ?F) + 1 + length [asc ''---'', []] - length (body [asc ''---'', []]),
          length ((A1 @ ?F) @ ?R))"
    using shape_bounds(1) [OF sh3] by (simp add: length_section_block)
  have s4: "create_after BUGS_HEADERS REPORTS_HEADERS BUGS_TITLE ((A1 @ ?F) @ ?R @ D, True)
      = (((A1 @ ?F) @ ?R) @ ?B @ D, True)"
    by (rule create_after_at [OF n3 b3]) simp
  have "find_or_create_sections d = ensure_nl (join_nl (A1 @ ?F @ ?R @ ?B @ D))"
    unfolding find_or_create_sections_def L0_def [symmetric] Let_def s1 L1 s2 s3 s4 by simp
  moreover have "list_all clean (A @ C @ D)"
  proof -
    have "list_all clean L0" by (simp add: L0_def splitlines_clean)
    then have "list_all clean A" "list_all clean B"
      by (auto simp: A_def B_def list_all_iff dest: in_set_takeD in_set_dropD)
    moreover from \<open>list_all clean B\<close> have "list_all clean (takeWhile nh B)" "list_all clean D"
      by (auto simp: D_def list_all_iff dest: set_takeWhileD set_dropWhileD)
    ultimately show ?thesis by (simp add: C_def titles_clean clean_simps)
  qed
  ultimately show ?thesis using nsA nsC by (intro that [of A C D]) (simp_all add: A1_def)
qed


lemma canonical_no_sections:
  assumes "no_sections (splitlines d)"
  shows "canonical_order (splitlines (find_or_create_sections d))"
proof -
  from assms obtain A C D where
    eq: "find_or_create_sections d = ensure_nl (join_nl (A @ ISSUES_TITLE # C @ section_block FOUND_TITLE
        @ section_block REPORTS_TITLE @ section_block BUGS_TITLE @ D))"
    and ns: "no_sections A" "no_sections C" and cl: "list_all clean (A @ C @ D)"
    by (rule scaffold_no_sections)
  let ?L = "A @ ISSUES_TITLE # C @ section_block FOUND_TITLE
        @ section_block REPORTS_TITLE @ section_block BUGS_TITLE @ D"
  have cl': "list_all clean ?L" using cl by (simp add: section_block_def titles_clean clean_simps)
  have sp: "splitlines (find_or_create_sections d) = drop_last_blank ?L"
    unfolding eq using cl' by (intro splitlines_ensure_nl_join) simp_all
  define A1 where "A1 = A @ ISSUES_TITLE # C"
  have hA1: "\<not> has_section FOUND_HEADERS A1" "\<not> has_section REPORTS_HEADERS A1"
    "\<not> has_section BUGS_HEADERS A1"
    using ns by (simp_all add: A1_def no_sections_def has_section_append has_section_simps titles_other)
  have hF: "\<not> has_section REPORTS_HEADERS (section_block FOUND_TITLE)"
    "\<not> has_section BUGS_HEADERS (section_block FOUND_TITLE)"
    "\<not> has_section BUGS_HEADERS (section_block REPORTS_TITLE)"
    by (simp_all add: section_block_def has_section_simps titles_other divider_not_header blank_not_header)
  have i: "find_section_start ?L ISSUES_HEADERS = Some (length A)"
    using ns(1) by (intro find_section_start_at) (simp_all add: no_sections_def titles_are_headers)
  have "find_section_start (A1 @ FOUND_TITLE # [asc ''---'', []] @ section_block REPORTS_TITLE
      @ section_block BUGS_TITLE @ D) FOUND_HEADERS = Some (length A1)"
    using hA1(1) by (intro find_section_start_at) (simp_all add: titles_are_headers)
  then have f: "find_section_start ?L FOUND_HEADERS = Some (length A + 1 + length C)"
    by (simp add: A1_def section_block_def)
  have "find_section_start ((A1 @ section_block FOUND_TITLE) @ REPORTS_TITLE # [asc ''---'', []]
      @ section_block BUGS_TITLE @ D) REPORTS_HEADERS = Some (length (A1 @ section_block FOUND_TITLE))"
    using hA1(2) hF(1) by (intro find_section_start_at) (simp_all add: titles_are_headers has_section_append)
  then have r: "find_section_start ?L REPORTS_HEADERS = Some (length A + 1 + length C + 3)"
    by (simp add: A1_def section_block_def)
  have "find_section_start ((A1 @ section_block FOUND_TITLE @ section_block REPORTS_TITLE)
      @ BUGS_TITLE # [asc ''---'', []] @ D) BUGS_HEADERS
      = Some (length (A1 @ section_block FOUND_TITLE @ section_block REPORTS_TITLE))"
    using hA1(3) hF(2,3) by (intro find_section_start_at) (simp_all add: titles_are_headers has_section_append)
  then have b: "find_section_start ?L BUGS_HEADERS = Some (length A + 1 + length C + 6)"
    by (simp add: A1_def section_block_def)
  have "canonical_order ?L" unfolding canonical_order_def i f r b by simp
  then show ?thesis unfolding sp by (simp add: canonical_order_drop_last_blank)
qed

text \<open>A block is never split by a later insertion: sections are inserted before a header or at the end.\<close>

lemma sublist_insert_boundary:
  assumes "sublist (section_block t) L" "j \<ge> length L \<or> any_header (L ! j)"
  shows "sublist (section_block t) (insert_lines j blk L)"
proof -
  from assms(1) obtain A B where L: "L = A @ section_block t @ B" by (auto simp: sublist_def)
  consider "j \<le> length A" | "j = length A + 1" | "j = length A + 2" | "j \<ge> length A + 3" by linarith
  then show ?thesis
  proof cases
    case 1
    then have "insert_lines j blk L = (take j A @ blk @ drop j A) @ section_block t @ B"
      by (simp add: insert_lines_def L)
    then show ?thesis by (metis sublist_appendI)
  next
    case 2
    then have "L ! j = asc ''---''" "j < length L" by (simp_all add: L nth_append section_block_def)
    then show ?thesis using assms(2) by (simp add: divider_not_header)
  next
    case 3
    then have "L ! j = []" "j < length L" by (simp_all add: L nth_append section_block_def)
    then show ?thesis using assms(2) by (simp add: divider_not_header)
  next
    case 4
    then have "insert_lines j blk L
        = A @ section_block t @ (take (j - length A - 3) B @ blk @ drop (j - length A - 3) B)"
      by (simp add: insert_lines_def L length_section_block)
    then show ?thesis by (metis sublist_appendI)
  qed
qed

lemma section_end_boundary:
  assumes "section_bounds L pats = Some (s, e)"
  shows "e \<ge> length L \<or> any_header (L ! e)"
proof -
  from assms obtain A h C D where sh: "shape pats L A h C D" and e: "e = length A + 1 + length C"
    by (rule shape_exists)
  then have L: "L = A @ h # C @ D" and D: "D = [] \<or> any_header (hd D)" by (simp_all add: shape_def)
  show ?thesis
  proof (cases D)
    case Nil
    then show ?thesis using L e by simp
  next
    case (Cons x D')
    then have "L ! e = x" using L e by (simp add: nth_append)
    then show ?thesis using D Cons by simp
  qed
qed

lemma create_after_sublist:
  "sublist (section_block t) (fst st) \<Longrightarrow> sublist (section_block t) (fst (create_after pats prev title st))"
  by (cases st)
    (auto simp: create_after_def Let_def split: option.splits
      intro!: sublist_insert_boundary dest: section_end_boundary)

lemma create_after_new:
  "\<not> has_section pats (fst st) \<Longrightarrow> sublist (section_block title) (fst (create_after pats prev title st))"
proof -
  have "sublist blk (insert_lines j blk L)" for blk j and L :: "ustr list"
    unfolding insert_lines_def by (metis sublist_appendI)
  moreover assume "\<not> has_section pats (fst st)"
  ultimately show ?thesis
    by (cases st) (simp add: create_after_def Let_def section_bounds_None section_block_def)
qed

lemma create_issues_new:
  "\<not> has_section ISSUES_HEADERS (fst st) \<Longrightarrow> sublist (section_block ISSUES_TITLE) (fst (create_issues st))"
proof -
  have "sublist blk (insert_lines j blk L)" for blk j and L :: "ustr list"
    unfolding insert_lines_def by (metis sublist_appendI)
  moreover assume "\<not> has_section ISSUES_HEADERS (fst st)"
  ultimately show ?thesis
    by (cases st) (simp add: create_issues_def Let_def section_bounds_None section_block_def)
qed

lemma create_issues_misses:
  "\<not> has_section P (fst st) \<Longrightarrow> \<not> is_header P ISSUES_TITLE \<Longrightarrow> \<not> is_header P (asc ''---'')
    \<Longrightarrow> \<not> is_header P [] \<Longrightarrow> \<not> has_section P (fst (create_issues st))"
  by (cases st) (auto simp: create_issues_def has_section_insert_lines Let_def has_section_simps)

lemma create_after_misses:
  "\<not> has_section P (fst st) \<Longrightarrow> \<not> is_header P title \<Longrightarrow> \<not> is_header P (asc ''---'')
    \<Longrightarrow> \<not> is_header P [] \<Longrightarrow> \<not> has_section P (fst (create_after pats prev title st))"
  by (cases st) (auto simp: create_after_def has_section_insert_lines Let_def has_section_simps)


lemma sublist_block_drop_last_blank:
  assumes "sublist (section_block t) L"
  shows "\<exists>A B. drop_last_blank L = A @ [t, asc ''---''] @ B \<and> (B = [] \<or> hd B = [])"
proof -
  from assms obtain A B' where L: "L = A @ [t, asc ''---'', []] @ B'"
    by (auto simp: sublist_def section_block_def)
  show ?thesis
  proof (cases "length L \<ge> 2 \<and> last L = []")
    case False
    then have "drop_last_blank L = A @ [t, asc ''---''] @ ([] # B')" by (auto simp: drop_last_blank_def L)
    then show ?thesis by (metis list.sel(1))
  next
    case True
    show ?thesis
    proof (cases "B' = []")
      case True
      then have "drop_last_blank L = A @ [t, asc ''---''] @ []"
        by (simp add: drop_last_blank_def L butlast_append)
      then show ?thesis by blast
    next
      case False
      then have "drop_last_blank L = A @ [t, asc ''---''] @ ([] # butlast B')"
        using True by (simp add: drop_last_blank_def L butlast_append)
      then show ?thesis by (metis list.sel(1))
    qed
  qed
qed

lemma scaffold_blocks:
  assumes XT: "(X, T) \<in> {(ISSUES_HEADERS, ISSUES_TITLE), (FOUND_HEADERS, FOUND_TITLE),
      (REPORTS_HEADERS, REPORTS_TITLE), (BUGS_HEADERS, BUGS_TITLE)}"
    and miss: "\<not> has_section X (splitlines d)"
  shows "\<exists>A B. splitlines (find_or_create_sections d) = A @ [T, asc ''---''] @ B \<and> (B = [] \<or> hd B = [])"
proof -
  define s0 where "s0 = (splitlines d, False)"
  define s1 where "s1 = create_issues s0"
  define s2 where "s2 = create_after FOUND_HEADERS ISSUES_HEADERS FOUND_TITLE s1"
  define s3 where "s3 = create_after REPORTS_HEADERS FOUND_HEADERS REPORTS_TITLE s2"
  define s4 where "s4 = create_after BUGS_HEADERS REPORTS_HEADERS BUGS_TITLE s3"
  have focs: "find_or_create_sections d = (if snd s4 then ensure_nl (join_nl (fst s4)) else d)"
    by (simp add: find_or_create_sections_def s0_def s1_def s2_def s3_def s4_def Let_def split: prod.splits)
  have c0: "list_all clean (fst s0)" by (simp add: s0_def splitlines_clean)
  have c4: "list_all clean (fst s4)"
    unfolding s4_def s3_def s2_def s1_def
    by (intro create_after_clean create_issues_clean titles_clean c0)
  have m0: "\<not> has_section X (fst s0)" using miss by (simp add: s0_def)
  note nh = titles_other divider_not_header blank_not_header
  consider (i) "X = ISSUES_HEADERS" "T = ISSUES_TITLE" | (f) "X = FOUND_HEADERS" "T = FOUND_TITLE"
    | (r) "X = REPORTS_HEADERS" "T = REPORTS_TITLE" | (b) "X = BUGS_HEADERS" "T = BUGS_TITLE"
    using XT by auto
  then have sub: "sublist (section_block T) (fst s4)"
  proof cases
    case i
    have "sublist (section_block T) (fst s1)" using m0 unfolding i s1_def by (rule create_issues_new)
    then show ?thesis unfolding s4_def s3_def s2_def by (intro create_after_sublist)
  next
    case f
    have "\<not> has_section X (fst s1)" unfolding s1_def using m0 unfolding f by (intro create_issues_misses nh)
    then have "sublist (section_block T) (fst s2)" unfolding f s2_def by (rule create_after_new)
    then show ?thesis unfolding s4_def s3_def by (intro create_after_sublist)
  next
    case r
    have "\<not> has_section X (fst s1)" unfolding s1_def using m0 unfolding r by (intro create_issues_misses nh)
    then have "\<not> has_section X (fst s2)" unfolding s2_def r by (intro create_after_misses nh)
    then have "sublist (section_block T) (fst s3)" unfolding r s3_def by (rule create_after_new)
    then show ?thesis unfolding s4_def by (intro create_after_sublist)
  next
    case b
    have "\<not> has_section X (fst s1)" unfolding s1_def using m0 unfolding b by (intro create_issues_misses nh)
    then have "\<not> has_section X (fst s2)" unfolding s2_def b by (intro create_after_misses nh)
    then have "\<not> has_section X (fst s3)" unfolding s3_def b by (intro create_after_misses nh)
    then show ?thesis unfolding b s4_def by (rule create_after_new)
  qed
  have ch: "snd s4"
  proof (rule ccontr)
    assume "\<not> snd s4"
    then have "find_or_create_sections d = d" by (simp add: focs)
    then have "all_sections (splitlines d)" using all_sections_scaffolded [of d] by simp
    then show False using miss XT by (auto simp: all_sections_def)
  qed
  have ne: "fst s4 \<noteq> []" using sub by (auto simp: section_block_def)
  have "splitlines (find_or_create_sections d) = drop_last_blank (fst s4)"
    using ch c4 ne by (simp add: focs splitlines_ensure_nl_join)
  then show ?thesis using sublist_block_drop_last_blank [OF sub] by simp
qed

text \<open>
  Claim C4, amended. For every text the scaffolder returns a document with the four
  sections (the three sections of \<open>test.py\<close> for its version). The empty document
  becomes the four blocks, title, \<open>---\<close> and an empty line, in canonical order. When
  the text has none of the four sections, they are in canonical order in the
  result. Each section missing from the text is in the result as its title line
  followed by the line \<open>---\<close> and then by an empty line or by the end of the document.
\<close>

theorem find_or_create_sections_creates:
  "all_sections (splitlines (find_or_create_sections d))
   \<and> all_sections_test (splitlines (find_or_create_sections_test d))
   \<and> find_or_create_sections [] = join_nl (section_block ISSUES_TITLE @ section_block FOUND_TITLE
        @ section_block REPORTS_TITLE @ section_block BUGS_TITLE)
   \<and> (no_sections (splitlines d) \<longrightarrow> canonical_order (splitlines (find_or_create_sections d)))
   \<and> ((X, T) \<in> {(ISSUES_HEADERS, ISSUES_TITLE), (FOUND_HEADERS, FOUND_TITLE),
          (REPORTS_HEADERS, REPORTS_TITLE), (BUGS_HEADERS, BUGS_TITLE)}
        \<and> \<not> has_section X (splitlines d) \<longrightarrow>
      (\<exists>A B. splitlines (find_or_create_sections d) = A @ [T, asc ''---''] @ B \<and> (B = [] \<or> hd B = [])))"
proof -
  have "find_or_create_sections [] = join_nl (section_block ISSUES_TITLE @ section_block FOUND_TITLE
        @ section_block REPORTS_TITLE @ section_block BUGS_TITLE)"
    unfolding find_or_create_sections_empty section_block_def by simp
  then show ?thesis
    using all_sections_scaffolded [of d] all_sections_test_scaffolded [of d] canonical_no_sections [of d]
      scaffold_blocks [of X T d] by blast
qed

theorem find_or_create_sections_creates_witness:
  "no_sections (splitlines (asc ''notes'')) \<and> \<not> has_section BUGS_HEADERS (splitlines (asc ''notes''))
   \<and> all_sections (splitlines (find_or_create_sections (asc ''notes'')))
   \<and> canonical_order (splitlines (find_or_create_sections (asc ''notes'')))
   \<and> (\<exists>A B. splitlines (find_or_create_sections (asc ''notes'')) = A @ [BUGS_TITLE, asc ''---''] @ B
        \<and> (B = [] \<or> hd B = []))"
proof -
  have sp: "splitlines (asc ''notes'') = [asc ''notes'']" by (simp add: splitlines_def eval_simps)
  have ns: "no_sections (splitlines (asc ''notes''))"
    unfolding sp by (simp add: no_sections_def has_section_simps eval_simps)
  then have nb: "\<not> has_section BUGS_HEADERS (splitlines (asc ''notes''))" by (simp add: no_sections_def)
  note T = find_or_create_sections_creates [of "asc ''notes''" BUGS_HEADERS BUGS_TITLE]
  have 1: "all_sections (splitlines (find_or_create_sections (asc ''notes'')))"
    using T by (rule conjunct1)
  have 4: "canonical_order (splitlines (find_or_create_sections (asc ''notes'')))"
    using T [THEN conjunct2, THEN conjunct2, THEN conjunct2, THEN conjunct1] ns by (rule mp)
  have 5: "\<exists>A B. splitlines (find_or_create_sections (asc ''notes'')) = A @ [BUGS_TITLE, asc ''---''] @ B
        \<and> (B = [] \<or> hd B = [])"
    by (rule mp [OF T [THEN conjunct2, THEN conjunct2, THEN conjunct2, THEN conjunct2]]) (simp add: nb)
  show ?thesis by (intro conjI ns nb 1 4 5)
qed

text \<open>
  As claim C4 states it, the four sections are in canonical order in every result.
  A text with the Found/Invalid header alone has the sections in the order Found /
  Invalid, Reports Written, Bugs, Issues Found after scaffolding: also the sections
  created are not in canonical order among themselves. And the scaffolder of
  \<open>test.py\<close> creates no Found/Invalid section.
\<close>

theorem find_or_create_sections_order_fails:
  "find_or_create_sections (asc ''# found'') =
     join_nl [asc ''# found'', REPORTS_TITLE, asc ''---'', [], BUGS_TITLE, asc ''---'', [],
       ISSUES_TITLE, asc ''---'', []]
   \<and> \<not> canonical_order (splitlines (find_or_create_sections (asc ''# found'')))
   \<and> \<not> has_section FOUND_HEADERS (splitlines (find_or_create_sections_test []))"
proof -
  let ?L = "[asc ''# found'', REPORTS_TITLE, asc ''---'', [], BUGS_TITLE, asc ''---'', [],
       ISSUES_TITLE, asc ''---'']"
  have cl: "list_all clean ?L" by (simp add: titles_clean clean_simps) (simp add: eval_simps)
  have "join_nl [asc ''# found'', REPORTS_TITLE, asc ''---'', [], BUGS_TITLE, asc ''---'', [],
       ISSUES_TITLE, asc ''---'', []] = join_nl ?L @ [NL]" by simp
  then have sp: "splitlines (find_or_create_sections (asc ''# found'')) = ?L"
    unfolding counter_found using cl by (simp only: splitlines_join_nl_NL [OF cl list.distinct(2)])
  have no: "\<not> canonical_order ?L"
    by (simp add: canonical_order_def titles_other titles_are_headers divider_not_header blank_not_header)
  have t: "find_or_create_sections_test [] = join_nl [ISSUES_TITLE, asc ''---'', [],
     REPORTS_TITLE, asc ''---'', [], BUGS_TITLE, asc ''---'', []]"
    by (simp add: run_simps find_or_create_sections_test_def)
  have "join_nl [ISSUES_TITLE, asc ''---'', [], REPORTS_TITLE, asc ''---'', [], BUGS_TITLE, asc ''---'', []]
      = join_nl [ISSUES_TITLE, asc ''---'', [], REPORTS_TITLE, asc ''---'', [], BUGS_TITLE, asc ''---''] @ [NL]"
    by simp
  moreover have "list_all clean [ISSUES_TITLE, asc ''---'', [], REPORTS_TITLE, asc ''---'', [],
      BUGS_TITLE, asc ''---'']" by (simp add: titles_clean clean_simps)
  ultimately have spt: "splitlines (find_or_create_sections_test [])
      = [ISSUES_TITLE, asc ''---'', [], REPORTS_TITLE, asc ''---'', [], BUGS_TITLE, asc ''---'']"
    unfolding t by (simp only: splitlines_join_nl_NL list.distinct(2) not_False_eq_True)
  have nf: "\<not> has_section FOUND_HEADERS (splitlines (find_or_create_sections_test []))"
    unfolding spt by (simp add: has_section_simps titles_other divider_not_header blank_not_header)
  show ?thesis using counter_found sp no nf by simp
qed


section \<open>Documents end with a newline\<close>

lemma find_upt_Some:
  "find Q [s..<e] = Some i \<Longrightarrow> s \<le> i \<and> i < e \<and> Q i \<and> (\<forall>j. s \<le> j \<and> j < i \<longrightarrow> \<not> Q j)"
proof -
  assume "find Q [s..<e] = Some i"
  then obtain k where k: "k < length [s..<e]" "Q ([s..<e] ! k)" "i = [s..<e] ! k"
    "\<forall>j<k. \<not> Q ([s..<e] ! j)" by (auto simp: find_Some_iff)
  then have i: "i = s + k" "k < e - s" by simp_all
  have "\<not> Q j" if "s \<le> j" "j < i" for j
  proof -
    have "j - s < k" using that i by simp
    then have "\<not> Q ([s..<e] ! (j - s))" using k(4) by blast
    moreover have "[s..<e] ! (j - s) = j" using that i by simp
    ultimately show ?thesis by simp
  qed
  then show ?thesis using k i by auto
qed

lemma find_upt_None: "find Q [s..<e] = None \<longleftrightarrow> (\<forall>j. s \<le> j \<and> j < e \<longrightarrow> \<not> Q j)"
  by (auto simp: find_None_iff)

text \<open>The removal loops on a range inside the lines, for both versions of the promotion.\<close>

lemma remove_issue_range [case_names same exact prefix]:
  assumes le: "e \<le> length lines"
  obtains (same) "remove_issue lines (s, e) ev = Inr lines"
      "remove_issue_test lines (s, e) ev = Inr (lines, issue_line ev)"
      "\<forall>j. s \<le> j \<and> j < e \<longrightarrow> \<not> issue_match ev (lines ! j)"
  | (exact) i where "remove_issue lines (s, e) ev = Inr (delete_at i lines)"
      "remove_issue_test lines (s, e) ev = Inr (delete_at i lines, issue_line ev)"
      "s \<le> i" "i < e" "strip (lines ! i) = issue_line ev"
      "\<forall>j. s \<le> j \<and> j < i \<longrightarrow> strip (lines ! j) \<noteq> issue_line ev"
  | (prefix) i where "remove_issue lines (s, e) ev = Inr (delete_at i lines)"
      "remove_issue_test lines (s, e) ev = Inr (delete_at i lines, strip (lines ! i))"
      "s \<le> i" "i < e" "pref_match ev (lines ! i)"
      "\<forall>j. s \<le> j \<and> j < e \<longrightarrow> strip (lines ! j) \<noteq> issue_line ev"
      "\<forall>j. s \<le> j \<and> j < i \<longrightarrow> \<not> pref_match ev (lines ! j)"
proof (cases "find (\<lambda>i. strip (lines ! i) = issue_line ev) [s..<e]")
  case (Some i)
  then have "remove_issue lines (s, e) ev = Inr (delete_at i lines)"
    "remove_issue_test lines (s, e) ev = Inr (delete_at i lines, issue_line ev)"
    by (simp_all add: remove_issue_def remove_issue_test_def scan_lines_range le)
  then show ?thesis using find_upt_Some [OF Some] exact by blast
next
  case None
  note n1 = this
  show ?thesis
  proof (cases "find (\<lambda>i. pref_match ev (lines ! i)) [s..<e]")
    case (Some i)
    then have "remove_issue lines (s, e) ev = Inr (delete_at i lines)"
      "remove_issue_test lines (s, e) ev = Inr (delete_at i lines, strip (lines ! i))"
      using n1 by (simp_all add: remove_issue_def remove_issue_test_def scan_lines_range le)
    then show ?thesis
      using find_upt_Some [OF Some] n1 [unfolded find_upt_None] prefix by blast
  next
    case None
    then have "remove_issue lines (s, e) ev = Inr lines"
      "remove_issue_test lines (s, e) ev = Inr (lines, issue_line ev)"
      using n1 by (simp_all add: remove_issue_def remove_issue_test_def scan_lines_range le)
    then show ?thesis
      using None [unfolded find_upt_None] n1 [unfolded find_upt_None] same
      by (auto simp: issue_match_def)
  qed
qed

lemma pref_match_dash: "pref_match ev l \<Longrightarrow> \<exists>r. l = 45 # 32 # r"
proof -
  define p where "p = asc ''- ['' @ ev_time ev @ asc '']['' @ ev_platform ev @ asc '']''"
  assume "pref_match ev l"
  then have "take (length p) l = p" by (simp add: pref_match_def lit_match_def p_def)
  then have "l = p @ drop (length p) l" by (metis append_take_drop_id)
  moreover have "\<exists>r. p = 45 # 32 # r" by (simp add: p_def asc_simps)
  ultimately show ?thesis by (metis append_Cons)
qed


lemma issue_match_dash: "issue_match ev l \<Longrightarrow> \<exists>r. strip l = 45 # r"
proof -
  assume "issue_match ev l"
  then consider "strip l = issue_line ev" | "pref_match ev l" by (auto simp: issue_match_def)
  then show ?thesis
  proof cases
    case 1
    then show ?thesis using issue_line_dash [of ev] by auto
  next
    case 2
    then obtain r where "l = 45 # 32 # r" using pref_match_dash by blast
    then show ?thesis by (rule dash_line(4))
  qed
qed

lemma issue_match_not_header:
  assumes "issue_match ev l"
  shows "\<not> section_header l"
  using issue_match_dash [OF assms] section_header_hash [of l] by auto

lemma in_set_delete_at:
  assumes "l \<in> set L" "l \<noteq> L ! i"
  shows "l \<in> set (delete_at i L)"
proof -
  from assms(1) obtain k where k: "k < length L" "L ! k = l" by (auto simp: in_set_conv_nth)
  with assms(2) have ne: "k \<noteq> i" by auto
  have "l \<in> set (take i L) \<union> set (drop (Suc i) L)"
  proof (cases "k < i")
    case True
    then have "take i L ! k = l" "k < length (take i L)" using k by simp_all
    then show ?thesis by (metis UnI1 nth_mem)
  next
    case False
    then have "Suc i \<le> k" using ne by simp
    then have "drop (Suc i) L ! (k - Suc i) = l" "k - Suc i < length (drop (Suc i) L)" using k by simp_all
    then show ?thesis by (metis UnI2 nth_mem)
  qed
  then show ?thesis by (simp add: delete_at_def)
qed

lemma has_section_delete_at:
  assumes "has_section pats L" "\<not> is_header pats (L ! i)"
  shows "has_section pats (delete_at i L)"
proof -
  from assms(1) obtain l where l: "l \<in> set L" "is_header pats l"
    by (auto simp: has_section_def list_ex_iff)
  with assms(2) have "l \<noteq> L ! i" by auto
  then have "l \<in> set (delete_at i L)" using l(1) by (intro in_set_delete_at)
  then show ?thesis using l(2) by (auto simp: has_section_def list_ex_iff)
qed

lemma all_sections_insert_lines: "all_sections L \<Longrightarrow> all_sections (insert_lines k blk L)"
  by (simp add: all_sections_def has_section_insert_lines)

lemma all_sections_test_insert_lines: "all_sections_test L \<Longrightarrow> all_sections_test (insert_lines k blk L)"
  by (simp add: all_sections_test_def has_section_insert_lines)

lemma all_sections_delete_match:
  assumes "issue_match ev (L ! i)"
  shows "all_sections L \<Longrightarrow> all_sections (delete_at i L)"
    and "all_sections_test L \<Longrightarrow> all_sections_test (delete_at i L)"
  using issue_match_not_header [OF assms]
  by (auto simp: all_sections_def all_sections_test_def section_header_def intro: has_section_delete_at)

lemma utf8_encode_error: "utf8_encode s = Inl e \<Longrightarrow> e = UnicodeEncodeError"
  by (induction s arbitrary: e) (auto simp: utf8_char_def split: if_splits sum.splits)

lemma generate_event_id_error: "generate_event_id ev = Inl e \<Longrightarrow> e = UnicodeEncodeError"
  by (auto simp: generate_event_id_def split: sum.splits dest: utf8_encode_error)

lemma endswith_nl_ensure_nl: "endswith_nl (ensure_nl s)"
  by (simp add: ensure_nl_def endswith_nl_def)


text \<open>The promotion, once the scaffolded text has its sections.\<close>

lemma append_bug_and_move_issue_unfold:
  assumes "section_bounds (splitlines (find_or_create_sections d)) ISSUES_HEADERS = Some ib"
    "section_bounds (splitlines (find_or_create_sections d)) REPORTS_HEADERS = Some rb"
    "section_bounds (splitlines (find_or_create_sections d)) BUGS_HEADERS = Some (bs, be)"
  shows "append_bug_and_move_issue d ev sp sm pl ob ex =
    (case generate_event_id ev of
       Inl e \<Rightarrow> Inl e
     | Inr ev_id \<Rightarrow>
         if sublist (bug_marker ev_id) (find_or_create_sections d) then Inr (find_or_create_sections d)
         else
           (case remove_issue (insert_lines be
                    (promoted_bug_lines (find_or_create_sections d) ev ev_id sp sm pl ob ex)
                    (splitlines (find_or_create_sections d))) ib ev of
              Inl e \<Rightarrow> Inl e
            | Inr lines \<Rightarrow>
                (case section_bounds lines REPORTS_HEADERS of
                   None \<Rightarrow> Inl TypeError
                 | Some (rs, re) \<Rightarrow> Inr (ensure_nl (join_nl (insert_lines re [issue_line ev] lines))))))"
  unfolding append_bug_and_move_issue_def promoted_bug_lines_def
  by (simp add: assms Let_def split: sum.splits prod.splits option.splits)

lemma append_bug_and_move_issue_test_unfold:
  assumes "section_bounds (splitlines (find_or_create_sections_test d)) ISSUES_HEADERS = Some ib"
    "section_bounds (splitlines (find_or_create_sections_test d)) REPORTS_HEADERS = Some rb"
    "section_bounds (splitlines (find_or_create_sections_test d)) BUGS_HEADERS = Some (bs, be)"
  shows "append_bug_and_move_issue_test d ev sp sm pl ob ex =
    (case generate_event_id ev of
       Inl e \<Rightarrow> Inl e
     | Inr ev_id \<Rightarrow>
         if sublist (bug_marker ev_id) (find_or_create_sections_test d)
         then Inr (find_or_create_sections_test d)
         else
           (case remove_issue_test (insert_lines be
                    (promoted_bug_lines_test (find_or_create_sections_test d) ev ev_id sp sm pl ob ex)
                    (splitlines (find_or_create_sections_test d))) ib ev of
              Inl e \<Rightarrow> Inl e
            | Inr (lines, line) \<Rightarrow>
                (case section_bounds lines REPORTS_HEADERS of
                   None \<Rightarrow> Inl TypeError
                 | Some (rs, re) \<Rightarrow> Inr (ensure_nl (join_nl (insert_lines re [line] lines))))))"
  unfolding append_bug_and_move_issue_test_def promoted_bug_lines_test_def
  by (simp add: assms Let_def split: sum.splits prod.splits option.splits)


text \<open>
  What follows the insertion of the bug: the removal never raises, it deletes at
  most one line, a line that matches the issue, and Reports Written is still there.
\<close>

lemma promote_tail:
  assumes ib: "section_bounds L0 ISSUES_HEADERS = Some (s, e)"
    and rep: "has_section REPORTS_HEADERS L0"
  obtains L2 line rs re where
    "remove_issue (insert_lines be blk L0) (s, e) ev = Inr L2"
    "remove_issue_test (insert_lines be blk L0) (s, e) ev = Inr (L2, line)"
    "section_bounds L2 REPORTS_HEADERS = Some (rs, re)"
    "L2 = insert_lines be blk L0 \<or>
       (\<exists>i. s \<le> i \<and> i < e \<and> issue_match ev (insert_lines be blk L0 ! i)
          \<and> L2 = delete_at i (insert_lines be blk L0))"
    "line = issue_line ev \<or>
       (\<exists>i. s \<le> i \<and> i < e \<and> pref_match ev (insert_lines be blk L0 ! i)
          \<and> line = strip (insert_lines be blk L0 ! i))"
    "\<And>X. X \<in> {ISSUES_HEADERS, FOUND_HEADERS, REPORTS_HEADERS, BUGS_HEADERS} \<Longrightarrow>
       has_section X L0 \<Longrightarrow> has_section X L2"
    "\<And>l. l \<in> set (insert_lines be blk L0) \<Longrightarrow> \<not> issue_match ev l \<Longrightarrow> l \<in> set L2"
proof -
  define L1 where "L1 = insert_lines be blk L0"
  have le: "e \<le> length L1"
    using section_bounds_le(2) [OF ib] by (simp add: L1_def insert_lines_def)
  have keep1: "has_section X L1" if "has_section X L0" for X
    using that by (simp add: L1_def has_section_insert_lines)
  have del: "has_section X (delete_at i L1)"
    if "X \<in> {ISSUES_HEADERS, FOUND_HEADERS, REPORTS_HEADERS, BUGS_HEADERS}" "has_section X L0"
      "issue_match ev (L1 ! i)" for X i
    using issue_match_not_header [OF that(3)] that(1) keep1 [OF that(2)]
    by (intro has_section_delete_at) (auto simp: section_header_def)
  have ind: "l \<in> set (delete_at i L1)" if "l \<in> set L1" "\<not> issue_match ev l" "issue_match ev (L1 ! i)" for l i
    using that by (intro in_set_delete_at) auto
  from le show ?thesis
  proof (cases rule: remove_issue_range [where s = s and ev = ev])
    case same
    obtain rs re where rb: "section_bounds L1 REPORTS_HEADERS = Some (rs, re)"
      using keep1 [OF rep] section_bounds_None [of L1 REPORTS_HEADERS] by fastforce
    show ?thesis
      by (rule that [of L1 "issue_line ev" rs re])
        (use same rb keep1 in \<open>simp_all add: L1_def [symmetric]\<close>)
  next
    case (exact i)
    have m: "issue_match ev (L1 ! i)" using exact(5) by (simp add: issue_match_def)
    obtain rs re where rb: "section_bounds (delete_at i L1) REPORTS_HEADERS = Some (rs, re)"
      using del [OF _ rep m] section_bounds_None [of "delete_at i L1" REPORTS_HEADERS] by fastforce
    show ?thesis
    proof (rule that [of "delete_at i L1" "issue_line ev" rs re])
      show "delete_at i L1 = insert_lines be blk L0 \<or>
         (\<exists>j. s \<le> j \<and> j < e \<and> issue_match ev (insert_lines be blk L0 ! j)
            \<and> delete_at i L1 = delete_at j (insert_lines be blk L0))"
        using exact(3,4) m unfolding L1_def by blast
    qed (use exact rb del m ind in \<open>simp_all add: L1_def [symmetric]\<close>)
  next
    case (prefix i)
    have m: "issue_match ev (L1 ! i)" using prefix(5) by (simp add: issue_match_def)
    obtain rs re where rb: "section_bounds (delete_at i L1) REPORTS_HEADERS = Some (rs, re)"
      using del [OF _ rep m] section_bounds_None [of "delete_at i L1" REPORTS_HEADERS] by fastforce
    show ?thesis
    proof (rule that [of "delete_at i L1" "strip (L1 ! i)" rs re])
      show "delete_at i L1 = insert_lines be blk L0 \<or>
         (\<exists>j. s \<le> j \<and> j < e \<and> issue_match ev (insert_lines be blk L0 ! j)
            \<and> delete_at i L1 = delete_at j (insert_lines be blk L0))"
        using prefix(3,4) m unfolding L1_def by blast
      show "strip (L1 ! i) = issue_line ev \<or>
         (\<exists>j. s \<le> j \<and> j < e \<and> pref_match ev (insert_lines be blk L0 ! j)
            \<and> strip (L1 ! i) = strip (insert_lines be blk L0 ! j))"
        using prefix(3,4,5) unfolding L1_def by blast
    qed (use prefix rb del m ind in \<open>simp_all add: L1_def [symmetric]\<close>)
  qed
qed


lemma append_bug_and_move_issue_returns:
  "generate_event_id ev = Inl UnicodeEncodeError
     \<and> append_bug_and_move_issue d ev sp sm pl ob ex = Inl UnicodeEncodeError
   \<or> append_bug_and_move_issue d ev sp sm pl ob ex = Inr (find_or_create_sections d)
   \<or> (\<exists>L. append_bug_and_move_issue d ev sp sm pl ob ex = Inr (ensure_nl (join_nl L)))"
proof -
  define L0 where "L0 = splitlines (find_or_create_sections d)"
  have all: "all_sections L0" unfolding L0_def by (rule all_sections_scaffolded)
  then obtain s e rb bs be where b: "section_bounds L0 ISSUES_HEADERS = Some (s, e)"
      "section_bounds L0 REPORTS_HEADERS = Some rb" "section_bounds L0 BUGS_HEADERS = Some (bs, be)"
    using section_bounds_None [of L0] by (fastforce simp: all_sections_def)
  note u = append_bug_and_move_issue_unfold [OF b [unfolded L0_def], of ev sp sm pl ob ex]
  show ?thesis
  proof (cases "generate_event_id ev")
    case (Inl err)
    then show ?thesis using u generate_event_id_error [OF Inl] by simp
  next
    case (Inr ev_id)
    show ?thesis
    proof (cases "sublist (bug_marker ev_id) (find_or_create_sections d)")
      case True
      then show ?thesis using u Inr by simp
    next
      case False
      have rep: "has_section REPORTS_HEADERS L0" using all by (simp add: all_sections_def)
      show ?thesis
      proof (rule promote_tail [OF b(1) rep, of be
            "promoted_bug_lines (find_or_create_sections d) ev ev_id sp sm pl ob ex" ev])
        fix L2 rs re
        assume "remove_issue (insert_lines be
            (promoted_bug_lines (find_or_create_sections d) ev ev_id sp sm pl ob ex) L0) (s, e) ev = Inr L2"
          "section_bounds L2 REPORTS_HEADERS = Some (rs, re)"
        then show ?thesis using u Inr False by (auto simp: L0_def [symmetric])
      qed
    qed
  qed
qed

lemma append_bug_and_move_issue_test_returns:
  "generate_event_id ev = Inl UnicodeEncodeError
     \<and> append_bug_and_move_issue_test d ev sp sm pl ob ex = Inl UnicodeEncodeError
   \<or> append_bug_and_move_issue_test d ev sp sm pl ob ex = Inr (find_or_create_sections_test d)
   \<or> (\<exists>L. append_bug_and_move_issue_test d ev sp sm pl ob ex = Inr (ensure_nl (join_nl L)))"
proof -
  define L0 where "L0 = splitlines (find_or_create_sections_test d)"
  have all: "all_sections_test L0" unfolding L0_def by (rule all_sections_test_scaffolded)
  then obtain s e rb bs be where b: "section_bounds L0 ISSUES_HEADERS = Some (s, e)"
      "section_bounds L0 REPORTS_HEADERS = Some rb" "section_bounds L0 BUGS_HEADERS = Some (bs, be)"
    using section_bounds_None [of L0] by (fastforce simp: all_sections_test_def)
  note u = append_bug_and_move_issue_test_unfold [OF b [unfolded L0_def], of ev sp sm pl ob ex]
  show ?thesis
  proof (cases "generate_event_id ev")
    case (Inl err)
    then show ?thesis using u generate_event_id_error [OF Inl] by simp
  next
    case (Inr ev_id)
    show ?thesis
    proof (cases "sublist (bug_marker ev_id) (find_or_create_sections_test d)")
      case True
      then show ?thesis using u Inr by simp
    next
      case False
      have rep: "has_section REPORTS_HEADERS L0" using all by (simp add: all_sections_test_def)
      show ?thesis
      proof (rule promote_tail [OF b(1) rep, of be
            "promoted_bug_lines_test (find_or_create_sections_test d) ev ev_id sp sm pl ob ex" ev])
        fix L2 line rs re
        assume "remove_issue_test (insert_lines be
            (promoted_bug_lines_test (find_or_create_sections_test d) ev ev_id sp sm pl ob ex) L0) (s, e) ev
          = Inr (L2, line)"
          "section_bounds L2 REPORTS_HEADERS = Some (rs, re)"
        then show ?thesis using u Inr False by (auto simp: L0_def [symmetric])
      qed
    qed
  qed
qed

lemma scaffold_changed_ends:
  "find_or_create_sections d \<noteq> d \<Longrightarrow> endswith_nl (find_or_create_sections d)"
  "find_or_create_sections_test d \<noteq> d \<Longrightarrow> endswith_nl (find_or_create_sections_test d)"
proof -
  show "find_or_create_sections d \<noteq> d \<Longrightarrow> endswith_nl (find_or_create_sections d)"
    by (cases d rule: find_or_create_sections_cases) (simp_all add: endswith_nl_ensure_nl)
  show "find_or_create_sections_test d \<noteq> d \<Longrightarrow> endswith_nl (find_or_create_sections_test d)"
    by (cases d rule: find_or_create_sections_test_cases) (simp_all add: endswith_nl_ensure_nl)
qed

lemma move_issue_to_found_returns:
  "\<exists>L. move_issue_to_found d ev bugnum = Inr (ensure_nl (join_nl L))"
proof -
  define L0 where "L0 = splitlines (find_or_create_sections d)"
  have all: "all_sections L0" unfolding L0_def by (rule all_sections_scaffolded)
  then obtain ib fb where b: "section_bounds L0 ISSUES_HEADERS = Some ib"
      "section_bounds L0 FOUND_HEADERS = Some fb"
    using section_bounds_None [of L0] by (fastforce simp: all_sections_def)
  have es: "ensure_section L0 FOUND_HEADERS ISSUES_HEADERS FOUND_TITLE = (L0, Some fb)"
    by (simp add: ensure_section_def b)
  obtain L2 where "remove_issue L0 ib ev = Inr L2"
    using b(1) by (cases rule: remove_issue_cases [where ev = ev]) auto
  then show ?thesis
    unfolding move_issue_to_found_def L0_def [symmetric] Let_def es by (auto simp: b)
qed

lemma delete_issue_line_returns:
  "delete_issue_line d ev = Inr d \<or> (\<exists>L. delete_issue_line d ev = Inr (ensure_nl (join_nl L)))"
proof (cases "section_bounds (splitlines d) ISSUES_HEADERS")
  case None
  then show ?thesis by (simp add: delete_issue_line_def)
next
  case (Some ib)
  then obtain L2 where "remove_issue (splitlines d) ib ev = Inr L2"
    by (cases rule: remove_issue_cases [where ev = ev]) auto
  then show ?thesis using Some by (auto simp: delete_issue_line_def)
qed

text \<open>
  Claim C10. Each operation of the engine returns its argument itself or a text that
  ends with a newline. Scaffolding, appending an issue, deleting an issue and moving
  an issue to Found/Invalid always return; promoting an issue raises when the issue
  cannot be encoded as UTF-8 (a surrogate code point), and returns otherwise. The
  scaffolder, the appending and the promotion are those of \<open>testv021.py\<close> and of
  \<open>test.py\<close>.
\<close>

theorem changed_document_ends_with_newline:
  "(find_or_create_sections d \<noteq> d \<longrightarrow> endswith_nl (find_or_create_sections d))
   \<and> (find_or_create_sections_test d \<noteq> d \<longrightarrow> endswith_nl (find_or_create_sections_test d))
   \<and> (\<exists>out. add_issue_line lowercase now d time_str platform desc = Inr out \<and> endswith_nl out)
   \<and> (\<exists>out. add_issue_line_test lowercase now d time_str platform desc = Inr out \<and> endswith_nl out)
   \<and> (\<exists>out. delete_issue_line d ev = Inr out \<and> (out \<noteq> d \<longrightarrow> endswith_nl out))
   \<and> (\<exists>out. move_issue_to_found d ev bugnum = Inr out \<and> endswith_nl out)
   \<and> (generate_event_id ev = Inl UnicodeEncodeError
         \<and> append_bug_and_move_issue d ev summary_prefix steps_mode plain_lines observed expected
             = Inl UnicodeEncodeError
       \<or> (\<exists>out. append_bug_and_move_issue d ev summary_prefix steps_mode plain_lines observed expected
             = Inr out \<and> (out \<noteq> d \<longrightarrow> endswith_nl out)))
   \<and> (generate_event_id ev = Inl UnicodeEncodeError
         \<and> append_bug_and_move_issue_test d ev summary_prefix steps_mode plain_lines observed expected
             = Inl UnicodeEncodeError
       \<or> (\<exists>out. append_bug_and_move_issue_test d ev summary_prefix steps_mode plain_lines observed expected
             = Inr out \<and> (out \<noteq> d \<longrightarrow> endswith_nl out)))"
proof -
  have a: "\<exists>out. add_issue_line lowercase now d time_str platform desc = Inr out \<and> endswith_nl out"
    unfolding add_issue_line_def using all_sections_scaffolded [of d]
    by (subst add_issue_line_in_eq) (simp_all add: all_sections_def with_issue_def endswith_nl_ensure_nl)
  have at: "\<exists>out. add_issue_line_test lowercase now d time_str platform desc = Inr out \<and> endswith_nl out"
    unfolding add_issue_line_test_def using all_sections_test_scaffolded [of d]
    by (subst add_issue_line_in_eq) (simp_all add: all_sections_test_def with_issue_def endswith_nl_ensure_nl)
  have dl: "\<exists>out. delete_issue_line d ev = Inr out \<and> (out \<noteq> d \<longrightarrow> endswith_nl out)"
    using delete_issue_line_returns [of d ev] by (auto simp: endswith_nl_ensure_nl)
  have mv: "\<exists>out. move_issue_to_found d ev bugnum = Inr out \<and> endswith_nl out"
    using move_issue_to_found_returns [of d ev bugnum] by (auto simp: endswith_nl_ensure_nl)
  have p: "generate_event_id ev = Inl UnicodeEncodeError
         \<and> append_bug_and_move_issue d ev summary_prefix steps_mode plain_lines observed expected
             = Inl UnicodeEncodeError
       \<or> (\<exists>out. append_bug_and_move_issue d ev summary_prefix steps_mode plain_lines observed expected
             = Inr out \<and> (out \<noteq> d \<longrightarrow> endswith_nl out))"
    using append_bug_and_move_issue_returns [of ev d summary_prefix steps_mode plain_lines observed expected]
      scaffold_changed_ends(1) [of d]
    by (auto simp: endswith_nl_ensure_nl)
  have pt: "generate_event_id ev = Inl UnicodeEncodeError
         \<and> append_bug_and_move_issue_test d ev summary_prefix steps_mode plain_lines observed expected
             = Inl UnicodeEncodeError
       \<or> (\<exists>out. append_bug_and_move_issue_test d ev summary_prefix steps_mode plain_lines observed expected
             = Inr out \<and> (out \<noteq> d \<longrightarrow> endswith_nl out))"
    using append_bug_and_move_issue_test_returns [of ev d summary_prefix steps_mode plain_lines observed expected]
      scaffold_changed_ends(2) [of d]
    by (auto simp: endswith_nl_ensure_nl)
  show ?thesis using scaffold_changed_ends [of d] a at dl mv p pt by blast
qed


lemma generate_event_id_ev0: "\<exists>ev_id. generate_event_id ev0 = Inr ev_id"
  by (simp add: generate_event_id_def ev0_def asc_simps utf8_char_def)

lemma issues_only:
  "\<not> endswith_nl (asc ''# issues found'')"
  "\<not> all_sections (splitlines (asc ''# issues found''))"
  "\<not> all_sections_test (splitlines (asc ''# issues found''))"
proof -
  show "\<not> endswith_nl (asc ''# issues found'')" by (simp add: endswith_nl_def asc_simps NL_def)
  have sp: "splitlines (asc ''# issues found'') = [asc ''# issues found'']"
    by (simp add: splitlines_def eval_simps)
  show "\<not> all_sections (splitlines (asc ''# issues found''))"
    unfolding sp by (simp add: all_sections_def has_section_simps eval_simps)
  show "\<not> all_sections_test (splitlines (asc ''# issues found''))"
    unfolding sp by (simp add: all_sections_test_def has_section_simps eval_simps)
qed

theorem changed_document_ends_with_newline_witness:
  "find_or_create_sections (asc ''# issues found'') \<noteq> asc ''# issues found''
   \<and> endswith_nl (find_or_create_sections (asc ''# issues found''))
   \<and> find_or_create_sections_test (asc ''# issues found'') \<noteq> asc ''# issues found''
   \<and> endswith_nl (find_or_create_sections_test (asc ''# issues found''))
   \<and> (\<exists>out. delete_issue_line (asc ''# issues found'') ev0 = Inr out
         \<and> out \<noteq> asc ''# issues found'' \<and> endswith_nl out)
   \<and> (\<exists>out. append_bug_and_move_issue (asc ''# issues found'') ev0 [] (asc ''default'') [] [] [] = Inr out
         \<and> out \<noteq> asc ''# issues found'' \<and> endswith_nl out)
   \<and> (\<exists>out. append_bug_and_move_issue_test (asc ''# issues found'') ev0 [] (asc ''default'') [] [] [] = Inr out
         \<and> out \<noteq> asc ''# issues found'' \<and> endswith_nl out)"
proof -
  let ?d = "asc ''# issues found''"
  note T = changed_document_ends_with_newline [where d = ?d and ev = ev0 and summary_prefix = "[]"
      and steps_mode = "asc ''default''" and plain_lines = "[]" and observed = "[]" and expected = "[]"]
  have ne: "find_or_create_sections ?d \<noteq> ?d"
    using all_sections_scaffolded [of ?d] issues_only(2) by auto
  have net: "find_or_create_sections_test ?d \<noteq> ?d"
    using all_sections_test_scaffolded [of ?d] issues_only(3) by auto
  have 1: "endswith_nl (find_or_create_sections ?d)"
    using T [THEN conjunct1] ne by (rule mp)
  have 2: "endswith_nl (find_or_create_sections_test ?d)"
    using T [THEN conjunct2, THEN conjunct1] net by (rule mp)
  have nl: "out \<noteq> ?d" if "endswith_nl out" for out using that issues_only(1) by auto
  have en: "ensure_nl x \<noteq> ?d" for x by (rule nl [OF endswith_nl_ensure_nl])
  have del: "delete_issue_line ?d ev0 = Inr (?d @ [NL])"
    by (simp add: delete_issue_line_def splitlines_def op_simps eval_simps)
  obtain o3 where o3: "delete_issue_line ?d ev0 = Inr o3" "o3 \<noteq> ?d \<longrightarrow> endswith_nl o3"
    using T [THEN conjunct2, THEN conjunct2, THEN conjunct2, THEN conjunct2, THEN conjunct1] by blast
  have "o3 \<noteq> ?d" using o3(1) del by auto
  then have 3: "\<exists>out. delete_issue_line ?d ev0 = Inr out \<and> out \<noteq> ?d \<and> endswith_nl out"
    using o3 by blast
  obtain ev_id where id: "generate_event_id ev0 = Inr ev_id" using generate_event_id_ev0 by blast
  obtain o4 where o4: "append_bug_and_move_issue ?d ev0 [] (asc ''default'') [] [] [] = Inr o4"
      "o4 \<noteq> ?d \<longrightarrow> endswith_nl o4"
    using T [THEN conjunct2, THEN conjunct2, THEN conjunct2, THEN conjunct2, THEN conjunct2,
        THEN conjunct2, THEN conjunct1] id by auto
  have "o4 \<noteq> ?d"
    using append_bug_and_move_issue_returns [of ev0 ?d "[]" "asc ''default''" "[]" "[]" "[]"] o4(1) id ne en
    by (metis sum.inject(2) sum.distinct(1))
  then have 4: "\<exists>out. append_bug_and_move_issue ?d ev0 [] (asc ''default'') [] [] [] = Inr out
      \<and> out \<noteq> ?d \<and> endswith_nl out" using o4 by blast
  obtain o5 where o5: "append_bug_and_move_issue_test ?d ev0 [] (asc ''default'') [] [] [] = Inr o5"
      "o5 \<noteq> ?d \<longrightarrow> endswith_nl o5"
    using T [THEN conjunct2, THEN conjunct2, THEN conjunct2, THEN conjunct2, THEN conjunct2,
        THEN conjunct2, THEN conjunct2] id by auto
  have "o5 \<noteq> ?d"
    using append_bug_and_move_issue_test_returns [of ev0 ?d "[]" "asc ''default''" "[]" "[]" "[]"] o5(1) id net en
    by (metis sum.inject(2) sum.distinct(1))
  then have 5: "\<exists>out. append_bug_and_move_issue_test ?d ev0 [] (asc ''default'') [] [] [] = Inr out
      \<and> out \<noteq> ?d \<and> endswith_nl out" using o5 by blast
  show ?thesis by (intro conjI ne net 1 2 3 4 5)
qed

end
